theory Spec2Isabelle
  imports Complex_Main "HOL-Library.AList"
begin

section \<open>Strings and characters\<close>

text \<open>
  The library works on JavaScript strings. They are modelled as lists of characters
  (\<open>string\<close>); the development covers ASCII texts, on which \<open>String.prototype.toUpperCase\<close>
  maps \<open>a\<close>..\<open>z\<close> to \<open>A\<close>..\<open>Z\<close> and leaves every other character alone. A value that
  may be \<open>undefined\<close> (an omitted argument, a field never assigned a string) is a
  \<open>string option\<close>, with \<open>None\<close> for \<open>undefined\<close>.
\<close>

definition charCode :: "char \<Rightarrow> int" where
  "charCode ch = of_char ch"

definition fromCharCode :: "int \<Rightarrow> char" where
  "fromCharCode n = char_of n"

text \<open>The test \<open>/^[A-Z]$/\<close> on a one-character string.\<close>

definition isAZ :: "char \<Rightarrow> bool" where
  "isAZ ch = (65 \<le> charCode ch \<and> charCode ch \<le> 90)"

definition upperChar :: "char \<Rightarrow> char" where
  "upperChar ch = (if 97 \<le> charCode ch \<and> charCode ch \<le> 122 then fromCharCode (charCode ch - 32) else ch)"

definition toUpperCase :: "string \<Rightarrow> string" where
  "toUpperCase s = map upperChar s"

text \<open>
  \<open>s.charAt(i)\<close> is the one-character string at position \<open>i\<close>, and the empty string when
  \<open>i\<close> is out of range.
\<close>

definition charAt :: "string \<Rightarrow> nat \<Rightarrow> string" where
  "charAt s i = (if i < length s then [s ! i] else [])"

text \<open>
  \<open>a || b\<close> on strings: the empty string and \<open>undefined\<close> are falsy.
\<close>

definition orElse :: "string option \<Rightarrow> string \<Rightarrow> string" where
  "orElse a b = (case a of None \<Rightarrow> b | Some s \<Rightarrow> if s = [] then b else s)"

text \<open>
  The remainder operator \<open>%\<close> of JavaScript takes the sign of the dividend.
\<close>

definition js_rem :: "int \<Rightarrow> int \<Rightarrow> int" where
  "js_rem a b = sgn a * (\<bar>a\<bar> mod \<bar>b\<bar>)"

section \<open>Modular alphabet arithmetic\<close>

text \<open>
  \<open>cyclicPlus\<close> and \<open>cyclicMinus\<close> receive two strings. Both regular expressions match
  only a string of exactly one character in \<open>A\<close>..\<open>Z\<close>; every other pair of arguments
  takes the \<open>else\<close> branch.
\<close>

fun cyclicPlus :: "string \<Rightarrow> string \<Rightarrow> string" where
  "cyclicPlus [a] [b] =
     (if isAZ a \<and> isAZ b
      then [fromCharCode (js_rem (charCode a + charCode b - 65 * 2) 26 + 65)]
      else [a])"
| "cyclicPlus x c = x"

fun cyclicMinus :: "string \<Rightarrow> string \<Rightarrow> string" where
  "cyclicMinus [a] [b] =
     (if isAZ a \<and> isAZ b
      then [fromCharCode (js_rem (charCode a - charCode b + 26) 26 + 65)]
      else [a])"
| "cyclicMinus x c = x"

section \<open>The cipher engine\<close>

text \<open>
  The fields of a \<open>Vigenere\<close> object. The field \<open>letterFrequencies\<close> of the source is a
  pointer to the global table, which nothing assigns to; the model reads the global
  table directly. The output fields \<open>plaintext\<close> and \<open>ciphertext\<close> start as the raw
  constructor argument, which may be \<open>undefined\<close>.
\<close>

record Vigenere =
  key :: string
  cryptotext :: string
  plaintext :: "string option"
  ciphertext :: "string option"

definition Vigenere_new :: "string option \<Rightarrow> string option \<Rightarrow> Vigenere" where
  "Vigenere_new text k =
     \<lparr> key = toUpperCase (orElse k '' ''),
       cryptotext = toUpperCase (orElse text '' ''),
       plaintext = text,
       ciphertext = text \<rparr>"

definition setText :: "Vigenere \<Rightarrow> string \<Rightarrow> Vigenere" where
  "setText v text = v\<lparr>cryptotext := text\<rparr>"

definition setKey :: "Vigenere \<Rightarrow> string option \<Rightarrow> Vigenere" where
  "setKey v k = v\<lparr>key := toUpperCase (orElse k '' '')\<rparr>"

definition reset :: "Vigenere \<Rightarrow> Vigenere" where
  "reset v = v\<lparr>plaintext := Some (cryptotext v), ciphertext := Some (cryptotext v)\<rparr>"

text \<open>
  The loops of \<open>encrypt\<close> and \<open>decrypt\<close> append one result per position \<open>i\<close> of the
  working text. \<open>i % key.length\<close> is \<open>NaN\<close> for an empty key, and \<open>charAt(NaN)\<close> reads
  position 0, which is out of range there.
\<close>

definition keyChar :: "string \<Rightarrow> nat \<Rightarrow> string" where
  "keyChar k i = (if length k = 0 then charAt k 0 else charAt k (i mod length k))"

definition encryptLoop :: "string \<Rightarrow> string \<Rightarrow> string" where
  "encryptLoop text k =
     concat (map (\<lambda>i. cyclicPlus (charAt text i) (keyChar k i)) [0..<length text])"

definition decryptLoop :: "string \<Rightarrow> string \<Rightarrow> string" where
  "decryptLoop text k =
     concat (map (\<lambda>i. cyclicMinus (charAt text i) (keyChar k i)) [0..<length text])"

text \<open>Both methods return the text they computed and store it in one output field.\<close>

definition encrypt :: "Vigenere \<Rightarrow> string option \<Rightarrow> string \<times> Vigenere" where
  "encrypt v newKey =
     (let k = orElse newKey (key v);
          c = encryptLoop (cryptotext v) k
      in (c, v\<lparr>ciphertext := Some c\<rparr>))"

definition decrypt :: "Vigenere \<Rightarrow> string option \<Rightarrow> string \<times> Vigenere" where
  "decrypt v newKey =
     (let k = orElse newKey (key v);
          p = decryptLoop (cryptotext v) k
      in (p, v\<lparr>plaintext := Some p\<rparr>))"

section \<open>JavaScript arrays with holes\<close>

text \<open>
  \<open>factorTable\<close> and \<open>candidateFreqs\<close> are arrays that are assigned at scattered indices.
  Such an array is modelled by the list of its assigned (index, value) pairs in ascending
  index order, the order in which \<open>for ... in\<close> visits them. Reading an index that was
  never assigned gives \<open>undefined\<close>.
\<close>

fun arr_set :: "nat \<Rightarrow> 'a \<Rightarrow> (nat \<times> 'a) list \<Rightarrow> (nat \<times> 'a) list" where
  "arr_set i v [] = [(i, v)]"
| "arr_set i v ((j, w) # xs) =
     (if i < j then (i, v) # (j, w) # xs
      else if i = j then (i, v) # xs
      else (j, w) # arr_set i v xs)"

definition arr_get :: "(nat \<times> 'a) list \<Rightarrow> nat \<Rightarrow> 'a option" where
  "arr_get xs i = map_of xs i"

section \<open>Kasiski examination\<close>

record factorEntry =
  frequency :: nat
  factorList :: "nat list"

text \<open>
  The loop \<open>for (var i = 2; i <= Math.sqrt(n); i++)\<close> of \<open>factorGap\<close>. For natural
  numbers \<open>i \<le> sqrt n\<close> is \<open>i * i \<le> n\<close> (lemma \<open>le_sqrt_iff\<close> below), which is what the
  model tests; \<open>Math.sqrt\<close> is correctly rounded, and for a gap of a string, far below
  \<open>2 ^ 52\<close>, the comparison with the rounded root agrees with the exact one. \<open>factorList[i] = true\<close> assigns index \<open>i\<close> of an array that starts empty;
  the model keeps the list of assigned indices, ascending since \<open>i\<close> ascends.
\<close>

function factorLoop :: "nat \<Rightarrow> nat \<Rightarrow> nat list \<Rightarrow> nat list" where
  "factorLoop n i fl =
     (if i * i \<le> n
      then factorLoop n (Suc i) (if n mod i = 0 then fl @ [i] else fl)
      else fl)"
  by pat_completeness auto
termination
proof (relation "measure (\<lambda>(n, i, fl). Suc n - i)")
  fix n i :: nat and fl :: "nat list"
  assume "i * i \<le> n"
  moreover have "i \<le> i * i" by (cases i) simp_all
  ultimately have "i \<le> n" by (rule le_trans[rotated])
  then show "((n, Suc i, if n mod i = 0 then fl @ [i] else fl), (n, i, fl))
               \<in> measure (\<lambda>(n, i, fl). Suc n - i)"
    by simp
qed simp

definition factorGap :: "nat \<Rightarrow> (nat \<times> factorEntry) list \<Rightarrow> (nat \<times> factorEntry) list" where
  "factorGap n factorTable =
     (case arr_get factorTable n of
        Some e \<Rightarrow> arr_set n (e\<lparr>frequency := frequency e + 1\<rparr>) factorTable
      | None \<Rightarrow> arr_set n \<lparr>frequency = 1, factorList = factorLoop n 2 []\<rparr> factorTable)"

record occurrence =
  indexOfAppearance :: nat
  gapToNextAppearance :: nat

text \<open>
  \<open>s.substring(a, b)\<close> for \<open>a \<le> b\<close>, and \<open>s.indexOf(c, from)\<close> for a non-empty \<open>c\<close>:
  the first position at or after \<open>from\<close> where \<open>c\<close> occurs, \<open>None\<close> for \<open>-1\<close>.
\<close>

definition substring :: "string \<Rightarrow> nat \<Rightarrow> nat \<Rightarrow> string" where
  "substring s a b = take (b - a) (drop a s)"

definition indexOf :: "string \<Rightarrow> string \<Rightarrow> nat \<Rightarrow> nat option" where
  "indexOf s c from = List.find (\<lambda>i. take (length c) (drop i s) = c) [from..<Suc (length s)]"

type_synonym tables = "(string \<times> occurrence list) list \<times> (nat \<times> factorEntry) list"

text \<open>
  \<open>substringTable\<close> is a plain object \<open>{}\<close> with the substrings as keys, modelled as an
  association list in insertion order, the object's own properties. A lookup
  \<open>substringTable[candidate]\<close> that finds no own property goes on to \<open>Object.prototype\<close>:
  for the names below it returns a function (for \<open>__proto__\<close> the prototype object), which
  is truthy, so no array is created, and has no method \<open>push\<close>, so the call of
  \<open>substringTable[candidate].push\<close> raises a \<open>TypeError\<close>. The names are those of the
  standard \<open>Object.prototype\<close>, the accessors of Annex B included.
\<close>

datatype error = TypeError

definition inheritedNames :: "string list" where
  "inheritedNames =
     [''constructor'', ''hasOwnProperty'', ''isPrototypeOf'', ''propertyIsEnumerable'',
      ''toLocaleString'', ''toString'', ''valueOf'', ''__proto__'', ''__defineGetter__'',
      ''__defineSetter__'', ''__lookupGetter__'', ''__lookupSetter__'']"

text \<open>
  The \<open>do ... while\<close> loop of \<open>recurrenceSearch\<close>. The only caller passes \<open>k \<ge> 2\<close>; for
  \<open>k = 0\<close> the loop of the source would find the same match forever, and the model
  stops instead.
\<close>

function searchLoop :: "string \<Rightarrow> nat \<Rightarrow> nat \<Rightarrow> string \<Rightarrow> nat \<Rightarrow> tables \<Rightarrow> error + tables" where
  "searchLoop ctext k startIndex candidate searchIndex (substringTable, factorTable) =
     (case indexOf ctext candidate searchIndex of
        None \<Rightarrow> Inr (substringTable, factorTable)
      | Some nextIndex \<Rightarrow>
          if k = 0 then Inr (substringTable, factorTable)
          else if map_of substringTable candidate = None \<and> candidate \<in> set inheritedNames
          then Inl TypeError
          else
            let gap = nextIndex - startIndex;
                previous = (case map_of substringTable candidate of None \<Rightarrow> [] | Some l \<Rightarrow> l);
                substringTable' = AList.update candidate
                  (previous @ [\<lparr>indexOfAppearance = startIndex, gapToNextAppearance = gap\<rparr>])
                  substringTable;
                factorTable' = factorGap gap factorTable
            in searchLoop ctext k startIndex candidate (nextIndex + k)
                 (substringTable', factorTable'))"
  by pat_completeness auto
termination
proof (relation "measure (\<lambda>(ctext, k, startIndex, candidate, searchIndex, t).
                            Suc (length ctext) - searchIndex)")
  fix ctext candidate :: string and k startIndex searchIndex nextIndex :: nat
    and substringTable :: "(string \<times> occurrence list) list"
    and factorTable :: "(nat \<times> factorEntry) list"
    and gap previous substringTable' factorTable'
  assume found: "indexOf ctext candidate searchIndex = Some nextIndex" and k: "k \<noteq> 0"
  from found have "nextIndex \<in> set [searchIndex..<Suc (length ctext)]"
    unfolding indexOf_def by (auto simp: find_Some_iff in_set_conv_nth simp del: upt_Suc)
  then have "searchIndex \<le> nextIndex" "nextIndex \<le> length ctext" by auto
  with k show "((ctext, k, startIndex, candidate, nextIndex + k, substringTable', factorTable'),
                (ctext, k, startIndex, candidate, searchIndex, substringTable, factorTable))
               \<in> measure (\<lambda>(ctext, k, startIndex, candidate, searchIndex, t).
                            Suc (length ctext) - searchIndex)"
    by simp
qed simp

text \<open>
  A \<open>for\<close> loop whose body may raise: the first error ends the loop and the call.
\<close>

fun forEach :: "('a \<Rightarrow> 's \<Rightarrow> error + 's) \<Rightarrow> 'a list \<Rightarrow> 's \<Rightarrow> error + 's" where
  "forEach body [] s = Inr s"
| "forEach body (x # xs) s = (case body x s of Inl e \<Rightarrow> Inl e | Inr s' \<Rightarrow> forEach body xs s')"

definition startLoop :: "string \<Rightarrow> nat \<Rightarrow> tables \<Rightarrow> error + tables" where
  "startLoop ctext k t =
     forEach (\<lambda>startIndex t.
                searchLoop ctext k startIndex
                  (substring ctext startIndex (startIndex + k)) (startIndex + k) t)
             [0..<length ctext - 2 * k] t"

definition recurrenceSearch :: "string \<Rightarrow> error + tables" where
  "recurrenceSearch ctext =
     forEach (\<lambda>k t. startLoop ctext k t) [2..<length ctext div 2] ([], [])"

section \<open>JavaScript numbers\<close>

text \<open>
  The numbers of the scoring code are IEEE doubles. The model keeps their special values
  (\<open>NaN\<close> and the two infinities) apart, with the IEEE rules for them, and idealises the
  finite ones as exact rationals: rounding is not modelled, and no statement proved below
  rests on the finite value of a score. Denominators are counts and constants of the
  table, so a zero denominator is the positive zero.
\<close>

datatype jsnum = Fin rat | PInf | NInf | NaN

fun jneg :: "jsnum \<Rightarrow> jsnum" where
  "jneg (Fin a) = Fin (- a)"
| "jneg PInf = NInf"
| "jneg NInf = PInf"
| "jneg NaN = NaN"

fun jadd :: "jsnum \<Rightarrow> jsnum \<Rightarrow> jsnum" where
  "jadd (Fin a) (Fin b) = Fin (a + b)"
| "jadd NaN y = NaN"
| "jadd x NaN = NaN"
| "jadd PInf NInf = NaN"
| "jadd NInf PInf = NaN"
| "jadd PInf y = PInf"
| "jadd NInf y = NInf"
| "jadd x PInf = PInf"
| "jadd x NInf = NInf"

definition jsub :: "jsnum \<Rightarrow> jsnum \<Rightarrow> jsnum" where
  "jsub x y = jadd x (jneg y)"

fun jdiv :: "jsnum \<Rightarrow> jsnum \<Rightarrow> jsnum" where
  "jdiv (Fin a) (Fin b) =
     (if b = 0 then (if a = 0 then NaN else if 0 < a then PInf else NInf)
      else Fin (a / b))"
| "jdiv NaN y = NaN"
| "jdiv x NaN = NaN"
| "jdiv (Fin a) y = Fin 0"
| "jdiv x (Fin b) = (if (x = PInf) = (0 \<le> b) then PInf else NInf)"
| "jdiv x y = NaN"

text \<open>\<open>Math.pow(x, 2)\<close>.\<close>

fun jsq :: "jsnum \<Rightarrow> jsnum" where
  "jsq (Fin a) = Fin (a * a)"
| "jsq NaN = NaN"
| "jsq x = PInf"

text \<open>Whether a comparator's result is greater than zero; \<open>NaN\<close> is not.\<close>

fun jpos :: "jsnum \<Rightarrow> bool" where
  "jpos (Fin a) = (0 < a)"
| "jpos PInf = True"
| "jpos x = False"

section \<open>Sorting\<close>

text \<open>
  \<open>Array.prototype.sort\<close> with a comparator. The sort is stable, and both comparators of
  the library are consistent on the arrays they sort, so the result is the one
  permutation that a stable insertion sort computes: an element moves behind those
  against which the comparator returns a positive number.
\<close>

fun insertBy :: "('a \<Rightarrow> 'a \<Rightarrow> jsnum) \<Rightarrow> 'a \<Rightarrow> 'a list \<Rightarrow> 'a list" where
  "insertBy cmp x [] = [x]"
| "insertBy cmp x (y # ys) = (if jpos (cmp x y) then y # insertBy cmp x ys else x # y # ys)"

definition sortBy :: "('a \<Rightarrow> 'a \<Rightarrow> jsnum) \<Rightarrow> 'a list \<Rightarrow> 'a list" where
  "sortBy cmp xs = foldr (insertBy cmp) xs []"

section \<open>Ranking the factors\<close>

text \<open>
  The objects \<open>{"factor": ..., "frequency": ...}\<close>. The source stores the factor as the
  string key of the \<open>for ... in\<close> loop and compares it with \<open>4\<close> numerically; the model
  keeps the number. Their field \<open>frequency\<close> is named \<open>aggregate\<close> here, \<open>frequency\<close>
  being the field of \<open>factorEntry\<close>.
\<close>

record candidateFreq =
  factor :: nat
  aggregate :: nat

text \<open>
  \<open>candidateFreqs\<close> and \<open>frequencyRanks\<close> hold references to the same objects at the
  same indices, so the later \<open>+=\<close> through \<open>candidateFreqs\<close> is seen through
  \<open>frequencyRanks\<close> too: before sorting, \<open>frequencyRanks\<close> is \<open>candidateFreqs\<close>.
\<close>

definition addFactor :: "nat \<Rightarrow> nat \<Rightarrow> (nat \<times> candidateFreq) list \<Rightarrow> (nat \<times> candidateFreq) list" where
  "addFactor fr f candidateFreqs =
     (case arr_get candidateFreqs f of
        None \<Rightarrow> arr_set f \<lparr>factor = f, aggregate = fr\<rparr> candidateFreqs
      | Some c \<Rightarrow> arr_set f (c\<lparr>aggregate := aggregate c + fr\<rparr>) candidateFreqs)"

definition aggregateLoop :: "(nat \<times> factorEntry) list \<Rightarrow> (nat \<times> candidateFreq) list" where
  "aggregateLoop factorTable =
     fold (\<lambda>(gap, e) cf. fold (addFactor (frequency e)) (factorList e) cf) factorTable []"

definition compareRanks :: "candidateFreq \<Rightarrow> candidateFreq \<Rightarrow> jsnum" where
  "compareRanks x y = jsub (Fin (of_nat (aggregate y))) (Fin (of_nat (aggregate x)))"

text \<open>
  Sorting moves the holes of the array behind its elements, so the sorted
  \<open>frequencyRanks\<close> is the list of its elements, and reading it at or beyond their number
  gives \<open>undefined\<close>, whose \<open>.factor\<close> raises a \<open>TypeError\<close>.
\<close>

definition factorAt :: "candidateFreq list \<Rightarrow> nat \<Rightarrow> error + nat" where
  "factorAt ranks i = (if i < length ranks then Inr (factor (ranks ! i)) else Inl TypeError)"

function firstKeyLengthLoop :: "candidateFreq list \<Rightarrow> nat \<Rightarrow> error + nat" where
  "firstKeyLengthLoop ranks i =
     (case factorAt ranks i of
        Inl e \<Rightarrow> Inl e
      | Inr f \<Rightarrow> if f < 4 then firstKeyLengthLoop ranks (Suc i) else Inr i)"
  by pat_completeness auto
termination
  by (relation "measure (\<lambda>(ranks, i). length ranks - i)")
     (auto simp: factorAt_def split: if_splits)

record kasiskiResult =
  substringTable :: "(string \<times> occurrence list) list"
  factorTable :: "(nat \<times> factorEntry) list"
  candidateFreqs :: "(nat \<times> candidateFreq) list"
  frequencyRanks :: "candidateFreq list"
  firstKeyLength :: nat

text \<open>\<open>kasiskiExamination\<close> of \<open>kasiski.js\<close>, which skips the ranked factors below 4.\<close>

definition kasiskiExamination :: "string \<Rightarrow> error + kasiskiResult" where
  "kasiskiExamination ctext =
     (case recurrenceSearch ctext of
        Inl e \<Rightarrow> Inl e
      | Inr (st, ft) \<Rightarrow>
          let cf = aggregateLoop ft;
              ranks = sortBy compareRanks (map snd cf)
          in case firstKeyLengthLoop ranks 0 of
               Inl e \<Rightarrow> Inl e
             | Inr firstKeyLengthIndex \<Rightarrow>
                 (case factorAt ranks firstKeyLengthIndex of
                    Inl e \<Rightarrow> Inl e
                  | Inr f \<Rightarrow>
                      Inr \<lparr>substringTable = st, factorTable = ft, candidateFreqs = cf,
                           frequencyRanks = ranks, firstKeyLength = f\<rparr>))"

text \<open>
  \<open>kasiskiExamination\<close> of the combined file (\<open>Vinegere: Kasiski + Vigenere\<close>), which
  returns the factor of the first ranked entry.
\<close>

definition kasiskiExamination_combined :: "string \<Rightarrow> error + kasiskiResult" where
  "kasiskiExamination_combined ctext =
     (case recurrenceSearch ctext of
        Inl e \<Rightarrow> Inl e
      | Inr (st, ft) \<Rightarrow>
          let cf = aggregateLoop ft;
              ranks = sortBy compareRanks (map snd cf)
          in case factorAt ranks 0 of
               Inl e \<Rightarrow> Inl e
             | Inr f \<Rightarrow>
                 Inr \<lparr>substringTable = st, factorTable = ft, candidateFreqs = cf,
                      frequencyRanks = ranks, firstKeyLength = f\<rparr>)"

section \<open>Letter frequencies and the chi-squared score\<close>

text \<open>
  The global table \<open>letterFrequencies\<close>, in the order of its keys, which is the order in
  which \<open>for ... in\<close> visits them.
\<close>

definition letterFrequencies :: "(char \<times> rat) list" where
  "letterFrequencies =
     [(CHR ''A'', 8000395 / 100000000),
      (CHR ''B'', 1535701 / 100000000),
      (CHR ''C'', 2575785 / 100000000),
      (CHR ''D'', 4317924 / 100000000),
      (CHR ''E'', 12575645 / 100000000),
      (CHR ''F'', 2350463 / 100000000),
      (CHR ''G'', 1982677 / 100000000),
      (CHR ''H'', 6236609 / 100000000),
      (CHR ''I'', 6920007 / 100000000),
      (CHR ''J'', 145188 / 100000000),
      (CHR ''K'', 739906 / 100000000),
      (CHR ''L'', 4057231 / 100000000),
      (CHR ''M'', 2560994 / 100000000),
      (CHR ''N'', 6903785 / 100000000),
      (CHR ''O'', 7591270 / 100000000),
      (CHR ''P'', 1795742 / 100000000),
      (CHR ''Q'', 117571 / 100000000),
      (CHR ''R'', 5959034 / 100000000),
      (CHR ''S'', 6340880 / 100000000),
      (CHR ''T'', 9085226 / 100000000),
      (CHR ''U'', 2841783 / 100000000),
      (CHR ''V'', 981717 / 100000000),
      (CHR ''W'', 2224893 / 100000000),
      (CHR ''X'', 179556 / 100000000),
      (CHR ''Y'', 1900888 / 100000000),
      (CHR ''Z'', 79130 / 100000000)]"

text \<open>
  A column object first holds \<open>total\<close> and one count per letter; the scoring loop then
  turns each count into a proportion in place and adds the property \<open>score\<close>. Reading a
  property that is absent gives \<open>undefined\<close>, which arithmetic turns into \<open>NaN\<close>.
\<close>

record columnCount =
  total :: nat
  letters :: "(char \<times> jsnum) list"

record columnFrequency = columnCount +
  score :: jsnum

definition getLetter :: "(char \<times> jsnum) list \<Rightarrow> char \<Rightarrow> jsnum" where
  "getLetter ls ch = (case map_of ls ch of None \<Rightarrow> NaN | Some x \<Rightarrow> x)"

definition initColumn :: columnCount where
  "initColumn = \<lparr>total = 0, letters = map (\<lambda>(l, F). (l, Fin 0)) letterFrequencies\<rparr>"

definition bump :: "columnCount \<Rightarrow> char \<Rightarrow> columnCount" where
  "bump col ch =
     col\<lparr>letters := AList.update ch (jadd (getLetter (letters col) ch) (Fin 1)) (letters col),
         total := total col + 1\<rparr>"

definition countLoop :: "nat \<Rightarrow> string \<Rightarrow> columnCount list \<Rightarrow> columnCount list" where
  "countLoop columns text cols =
     fold (\<lambda>i cols.
             let column = i mod columns; l = text ! i
             in if \<not> isAZ l then cols else cols[column := bump (cols ! column) l])
          [0..<length text] cols"

definition scoreStep :: "nat \<Rightarrow> char \<times> rat \<Rightarrow> (char \<times> jsnum) list \<times> jsnum \<Rightarrow> (char \<times> jsnum) list \<times> jsnum" where
  "scoreStep tot lF st =
     (case (lF, st) of ((l, F), (ls, sc)) \<Rightarrow>
        let p = jdiv (getLetter ls l) (Fin (of_nat tot))
        in (AList.update l p ls, jadd sc (jdiv (jsq (jsub p (Fin F))) (Fin F))))"

definition scoreColumn :: "columnCount \<Rightarrow> columnFrequency" where
  "scoreColumn col =
     (case fold (scoreStep (total col)) letterFrequencies (letters col, Fin 0) of
        (ls, sc) \<Rightarrow> \<lparr>total = total col, letters = ls, score = sc\<rparr>)"

text \<open>\<open>columns || 1\<close>, \<open>options || 3\<close>: zero and \<open>undefined\<close> are falsy.\<close>

definition orDefault :: "nat option \<Rightarrow> nat \<Rightarrow> nat" where
  "orDefault a d = (case a of None \<Rightarrow> d | Some n \<Rightarrow> if n = 0 then d else n)"

definition frequencies :: "Vigenere \<Rightarrow> nat option \<Rightarrow> string option \<Rightarrow> columnFrequency list" where
  "frequencies v columns text =
     (let columns' = orDefault columns 1;
          text' = orElse text (cryptotext v);
          counted = countLoop columns' text' (replicate columns' initColumn)
      in map (\<lambda>i. scoreColumn (counted ! i)) [0..<columns'])"

section \<open>Key recovery\<close>

text \<open>
  The objects \<open>{"letter": ..., "score": ...}\<close> of the candidate table; their field
  \<open>score\<close> is named \<open>chi\<close> here, \<open>score\<close> being the field of the column objects.
\<close>

record keyCandidate =
  letter :: string
  chi :: jsnum

definition compareScores :: "keyCandidate \<Rightarrow> keyCandidate \<Rightarrow> jsnum" where
  "compareScores x y = jsub (chi x) (chi y)"

record smashResult =
  candidateTable :: "keyCandidate list list"
  firstKey :: string

text \<open>
  The first lines of \<open>smashKey\<close>. The method \<open>kasiskiExamination\<close> is attached to the
  prototype only when the function of that name exists; the parameter \<open>kas\<close> is that
  function, or \<open>None\<close>. \<open>||\<close> evaluates its right operand only when the left one is falsy.
\<close>

definition chooseLength :: "(string \<Rightarrow> error + kasiskiResult) option \<Rightarrow> Vigenere \<Rightarrow> nat option \<Rightarrow> error + nat" where
  "chooseLength kas v len =
     (case kas of
        Some examine \<Rightarrow>
          (if orDefault len 0 \<noteq> 0 then Inr (orDefault len 0)
           else case examine (cryptotext v) of
                  Inl e \<Rightarrow> Inl e
                | Inr r \<Rightarrow> Inr (if firstKeyLength r \<noteq> 0 then firstKeyLength r else 1))
      | None \<Rightarrow> Inr (orDefault len 1))"

text \<open>
  The loop over the 26 letters: each round decrypts the working text under the letter,
  which stores the result in the engine, scores the columns and appends one candidate to
  every column.
\<close>

definition shiftStep :: "nat \<Rightarrow> char \<times> rat \<Rightarrow> Vigenere \<times> keyCandidate list list \<Rightarrow> Vigenere \<times> keyCandidate list list" where
  "shiftStep len lF st =
     (case (lF, st) of ((l, F), (v, table)) \<Rightarrow>
        let (shiftedText, v') = decrypt v (Some [l]);
            fs = frequencies v' (Some len) (Some shiftedText)
        in (v', map (\<lambda>column. (table ! column) @ [\<lparr>letter = [l], chi = score (fs ! column)\<rparr>])
                  [0..<len]))"

text \<open>
  The loop that sorts each column and appends the letter of its first candidate to
  \<open>firstKey\<close>; the first candidate of an empty column would be \<open>undefined\<close>.
\<close>

fun sortColumns :: "keyCandidate list list \<Rightarrow> nat list \<Rightarrow> string \<Rightarrow> error + keyCandidate list list \<times> string" where
  "sortColumns table [] fk = Inr (table, fk)"
| "sortColumns table (column # cs) fk =
     (let table' = table[column := sortBy compareScores (table ! column)]
      in case table' ! column of
           [] \<Rightarrow> Inl TypeError
         | c # rest \<Rightarrow> sortColumns table' cs (fk @ letter c))"

definition smashKey :: "(string \<Rightarrow> error + kasiskiResult) option \<Rightarrow> Vigenere \<Rightarrow> nat option \<Rightarrow> nat option \<Rightarrow> error + smashResult \<times> Vigenere" where
  "smashKey kas v len options =
     (case chooseLength kas v len of
        Inl e \<Rightarrow> Inl e
      | Inr len' \<Rightarrow>
          let options' = min (orDefault options 3) 26;
              (v', table) = fold (shiftStep len') letterFrequencies (v, replicate len' [])
          in case sortColumns table [0..<len'] [] of
               Inl e \<Rightarrow> Inl e
             | Inr (table', fk) \<Rightarrow> Inr (\<lparr>candidateTable = table', firstKey = fk\<rparr>, v'))"

text \<open>
  The function \<open>assemble\<close> of a result, called as a method of that result. An index
  missing from \<open>combination\<close>, or one beyond a column, reads \<open>undefined\<close>, whose \<open>.letter\<close>
  raises a \<open>TypeError\<close>.
\<close>

fun assembleLoop :: "keyCandidate list list \<Rightarrow> nat list \<Rightarrow> nat list \<Rightarrow> string \<Rightarrow> error + string" where
  "assembleLoop table combination [] newKey = Inr newKey"
| "assembleLoop table combination (column # cs) newKey =
     (if column < length combination \<and> combination ! column < length (table ! column)
      then assembleLoop table combination cs
             (newKey @ letter (table ! column ! (combination ! column)))
      else Inl TypeError)"

definition assemble :: "smashResult \<Rightarrow> nat list \<Rightarrow> error + string" where
  "assemble r combination =
     assembleLoop (candidateTable r) combination [0..<length (candidateTable r)] []"

section \<open>Notions of the specification\<close>

text \<open>
  The specification numbers the letters from \<open>A = 0\<close>: \<open>letterIndex\<close> is the index of a
  letter and \<open>letterAt\<close> the letter at an index.
\<close>

definition letterIndex :: "char \<Rightarrow> int" where
  "letterIndex ch = charCode ch - 65"

definition letterAt :: "int \<Rightarrow> char" where
  "letterAt n = fromCharCode (n + 65)"

text \<open>
  The non-trivial divisors of \<open>n\<close> up to its square root, in ascending order, and the
  invariant of a factor table: every entry lists exactly these for its gap.
\<close>

definition factorsUpToSqrt :: "nat \<Rightarrow> nat list" where
  "factorsUpToSqrt n = filter (\<lambda>i. i * i \<le> n \<and> n mod i = 0) [2..<Suc n]"

definition ftInv :: "(nat \<times> factorEntry) list \<Rightarrow> bool" where
  "ftInv ft = (\<forall>n e. arr_get ft n = Some e \<longrightarrow> factorList e = factorsUpToSqrt n)"

text \<open>
  The ranking of the specification, from the recorded factor table alone. The aggregate
  frequency of a factor is the sum of the frequencies of the gaps that list it. The
  recorded factors are ranked descending by aggregate frequency, ties in their original
  relative order (\<open>sort_key\<close> is a stable sort); the original order is that of the array
  \<open>frequencyRanks\<close> before sorting, by ascending factor.
\<close>

definition aggregateFrequency :: "(nat \<times> factorEntry) list \<Rightarrow> nat \<Rightarrow> nat" where
  "aggregateFrequency ft f =
     sum_list (map (\<lambda>(gap, e). if f \<in> set (factorList e) then frequency e else 0) ft)"

definition recordedFactors :: "(nat \<times> factorEntry) list \<Rightarrow> nat list" where
  "recordedFactors ft = sort (remdups (concat (map (\<lambda>(gap, e). factorList e) ft)))"

definition rankedFactors :: "(nat \<times> factorEntry) list \<Rightarrow> candidateFreq list" where
  "rankedFactors ft =
     sort_key (\<lambda>c. - int (aggregate c))
       (map (\<lambda>f. \<lparr>factor = f, aggregate = aggregateFrequency ft f\<rparr>) (recordedFactors ft))"

text \<open>
  The invariant of the loop that aggregates: the array \<open>candidateFreqs\<close> holds, at
  ascending indices \<open>K\<close>, the factor and the sum \<open>A\<close> accumulated for it so far.
\<close>

definition cfInv :: "(nat \<times> candidateFreq) list \<Rightarrow> nat set \<Rightarrow> (nat \<Rightarrow> nat) \<Rightarrow> bool" where
  "cfInv cf K A =
     (sorted_wrt (<) (map fst cf) \<and> set (map fst cf) = K \<and>
      (\<forall>(f, c)\<in>set cf. c = \<lparr>factor = f, aggregate = A f\<rparr>) \<and>
      (\<forall>g. g \<notin> K \<longrightarrow> A g = 0))"

section \<open>Properties of the alphabet arithmetic\<close>

lemma charCode_fromCharCode: "0 \<le> m \<Longrightarrow> m < 256 \<Longrightarrow> charCode (fromCharCode m) = m"
  by (simp add: charCode_def fromCharCode_def)

lemma fromCharCode_charCode: "fromCharCode (charCode a) = a"
  by (simp add: charCode_def fromCharCode_def)

lemma js_rem_nonneg: "0 \<le> a \<Longrightarrow> 0 < b \<Longrightarrow> js_rem a b = a mod b"
  by (cases "a = 0") (simp_all add: js_rem_def)

lemma isAZ_letterAt: "0 \<le> n \<Longrightarrow> n < 26 \<Longrightarrow> isAZ (letterAt n)"
  by (simp add: isAZ_def letterAt_def charCode_fromCharCode)

lemma letterIndex_letterAt: "0 \<le> n \<Longrightarrow> n < 26 \<Longrightarrow> letterIndex (letterAt n) = n"
  by (simp add: letterIndex_def letterAt_def charCode_fromCharCode)

lemma letterAt_letterIndex: "letterAt (letterIndex a) = a"
  by (simp add: letterIndex_def letterAt_def fromCharCode_charCode)

lemma cyclicPlus_letters:
  assumes "isAZ a" "isAZ b"
  shows "cyclicPlus [a] [b] = [letterAt ((letterIndex a + letterIndex b) mod 26)]"
proof -
  have "0 \<le> charCode a + charCode b - 65 * 2"
    using assms by (simp add: isAZ_def)
  then have "js_rem (charCode a + charCode b - 65 * 2) 26
               = (charCode a + charCode b - 65 * 2) mod 26"
    by (simp add: js_rem_nonneg)
  then show ?thesis
    using assms by (simp add: letterAt_def letterIndex_def algebra_simps)
qed

lemma cyclicMinus_letters:
  assumes "isAZ a" "isAZ b"
  shows "cyclicMinus [a] [b] = [letterAt ((letterIndex a - letterIndex b) mod 26)]"
proof -
  have "0 \<le> charCode a - charCode b + 26"
    using assms by (simp add: isAZ_def)
  then have "js_rem (charCode a - charCode b + 26) 26 = (charCode a - charCode b + 26) mod 26"
    by (simp add: js_rem_nonneg)
  also have "\<dots> = (letterIndex a - letterIndex b) mod 26"
    by (simp add: letterIndex_def)
  finally show ?thesis
    using assms by (simp add: letterAt_def)
qed

lemma cyclic_other:
  "\<not> (\<exists>a b. x = [a] \<and> c = [b] \<and> isAZ a \<and> isAZ b)
     \<Longrightarrow> cyclicPlus x c = x \<and> cyclicMinus x c = x"
  by (induction x c rule: cyclicPlus.induct) auto

lemma cyclicPlus_single: "\<exists>ch. cyclicPlus [a] c = [ch]"
  by (cases "([a], c)" rule: cyclicPlus.cases) auto

lemma cyclicMinus_single: "\<exists>ch. cyclicMinus [a] c = [ch]"
  by (cases "([a], c)" rule: cyclicMinus.cases) auto

text \<open>Subtracting the key letter undoes adding it, whatever the two strings are.\<close>

lemma cyclic_roundtrip: "cyclicMinus (cyclicPlus [a] c) c = [a]"
proof (cases "\<exists>b. c = [b] \<and> isAZ a \<and> isAZ b")
  case True
  then obtain b where c: "c = [b]" and a: "isAZ a" and b: "isAZ b" by blast
  let ?m = "(letterIndex a + letterIndex b) mod 26"
  have m: "0 \<le> ?m" "?m < 26" by simp_all
  have "cyclicMinus (cyclicPlus [a] c) c = cyclicMinus [letterAt ?m] [b]"
    using a b c by (simp only: cyclicPlus_letters)
  also have "\<dots> = [letterAt ((letterIndex (letterAt ?m) - letterIndex b) mod 26)]"
    using b isAZ_letterAt[OF m] by (simp only: cyclicMinus_letters)
  also have "(letterIndex (letterAt ?m) - letterIndex b) mod 26 = letterIndex a mod 26"
    by (simp only: letterIndex_letterAt[OF m]) (simp add: mod_diff_left_eq)
  also have "letterIndex a mod 26 = letterIndex a"
    using a by (simp add: letterIndex_def isAZ_def)
  finally show ?thesis by (simp add: letterAt_letterIndex)
next
  case False
  then have "cyclicPlus [a] c = [a]" using cyclic_other[of "[a]" c] by auto
  moreover have "cyclicMinus [a] c = [a]" using False cyclic_other[of "[a]" c] by auto
  ultimately show ?thesis by simp
qed

text \<open>
  C6: for two characters that are both uppercase letters, \<open>cyclicPlus\<close> returns the letter
  at index \<open>(index x + index c) mod 26\<close> and \<open>cyclicMinus\<close> the letter at index
  \<open>(index x - index c) mod 26\<close>, with \<open>A = 0\<close>; for every other pair of characters both
  return \<open>x\<close> unchanged. Both are total: no pair of characters raises an error.
\<close>

theorem cyclic_arithmetic:
  "cyclicPlus [x] [c] =
     (if isAZ x \<and> isAZ c then [letterAt ((letterIndex x + letterIndex c) mod 26)] else [x]) \<and>
   cyclicMinus [x] [c] =
     (if isAZ x \<and> isAZ c then [letterAt ((letterIndex x - letterIndex c) mod 26)] else [x])"
  using cyclicPlus_letters[of x c] cyclicMinus_letters[of x c] by auto

section \<open>Properties of encryption and decryption\<close>

lemma concat_map_singletons:
  "(\<And>i. i < n \<Longrightarrow> f i = [g i]) \<Longrightarrow> concat (map f [0..<n]) = map g [0..<n]"
  by (induction n) auto

lemma encryptLoop_eq:
  "encryptLoop text k = map (\<lambda>i. hd (cyclicPlus [text ! i] (keyChar k i))) [0..<length text]"
  unfolding encryptLoop_def
proof (rule concat_map_singletons)
  fix i assume "i < length text"
  moreover obtain ch where "cyclicPlus [text ! i] (keyChar k i) = [ch]"
    using cyclicPlus_single by blast
  ultimately show "cyclicPlus (charAt text i) (keyChar k i)
                     = [hd (cyclicPlus [text ! i] (keyChar k i))]"
    by (simp add: charAt_def)
qed

lemma decryptLoop_eq:
  "decryptLoop text k = map (\<lambda>i. hd (cyclicMinus [text ! i] (keyChar k i))) [0..<length text]"
  unfolding decryptLoop_def
proof (rule concat_map_singletons)
  fix i assume "i < length text"
  moreover obtain ch where "cyclicMinus [text ! i] (keyChar k i) = [ch]"
    using cyclicMinus_single by blast
  ultimately show "cyclicMinus (charAt text i) (keyChar k i)
                     = [hd (cyclicMinus [text ! i] (keyChar k i))]"
    by (simp add: charAt_def)
qed

lemma length_encryptLoop: "length (encryptLoop text k) = length text"
  by (simp add: encryptLoop_eq)

lemma length_decryptLoop: "length (decryptLoop text k) = length text"
  by (simp add: decryptLoop_eq)

lemma decryptLoop_encryptLoop: "decryptLoop (encryptLoop text k) k = text"
proof -
  let ?e = "encryptLoop text k"
  have "decryptLoop ?e k = map (\<lambda>i. text ! i) [0..<length text]"
    unfolding decryptLoop_def length_encryptLoop
  proof (rule concat_map_singletons)
    fix i assume i: "i < length text"
    obtain ch where ch: "cyclicPlus [text ! i] (keyChar k i) = [ch]"
      using cyclicPlus_single by blast
    have "charAt ?e i = cyclicPlus [text ! i] (keyChar k i)"
      using i ch by (simp add: charAt_def length_encryptLoop) (simp add: encryptLoop_eq)
    then show "cyclicMinus (charAt ?e i) (keyChar k i) = [text ! i]"
      by (simp only: cyclic_roundtrip)
  qed
  then show ?thesis by (simp add: map_nth)
qed

lemma upperChar_not_lower:
  "\<not> (97 \<le> charCode (upperChar ch) \<and> charCode (upperChar ch) \<le> 122)"
  by (auto simp: upperChar_def charCode_fromCharCode)

lemma toUpperCase_fixed:
  "(\<forall>ch\<in>set s. \<not> (97 \<le> charCode ch \<and> charCode ch \<le> 122)) \<Longrightarrow> toUpperCase s = s"
  by (induction s) (auto simp: toUpperCase_def upperChar_def)

lemma cyclicPlus_not_lower:
  assumes "\<not> (97 \<le> charCode a \<and> charCode a \<le> 122)"
  shows "\<not> (97 \<le> charCode (hd (cyclicPlus [a] c)) \<and> charCode (hd (cyclicPlus [a] c)) \<le> 122)"
proof (cases "\<exists>b. c = [b] \<and> isAZ a \<and> isAZ b")
  case True
  then obtain b where c: "c = [b]" and a: "isAZ a" and b: "isAZ b" by blast
  have "isAZ (letterAt ((letterIndex a + letterIndex b) mod 26))"
    by (rule isAZ_letterAt) simp_all
  then show ?thesis
    using a b c by (simp only: cyclicPlus_letters) (simp add: isAZ_def)
next
  case False
  then have "cyclicPlus [a] c = [a]" using cyclic_other[of "[a]" c] by auto
  then show ?thesis using assms by simp
qed

text \<open>The ciphertext of an uppercased text is left alone by the constructor.\<close>

lemma toUpperCase_encryptLoop:
  "toUpperCase (encryptLoop (toUpperCase s) k) = encryptLoop (toUpperCase s) k"
proof (rule toUpperCase_fixed, rule ballI)
  fix ch assume "ch \<in> set (encryptLoop (toUpperCase s) k)"
  then obtain i where i: "i < length s"
    and ch: "ch = hd (cyclicPlus [toUpperCase s ! i] (keyChar k i))"
    by (auto simp: encryptLoop_eq toUpperCase_def)
  have "\<not> (97 \<le> charCode (toUpperCase s ! i) \<and> charCode (toUpperCase s ! i) \<le> 122)"
    using i upperChar_not_lower by (simp add: toUpperCase_def)
  then show "\<not> (97 \<le> charCode ch \<and> charCode ch \<le> 122)"
    unfolding ch by (rule cyclicPlus_not_lower)
qed

text \<open>
  C1, as amended: for every non-empty text \<open>T\<close> and every non-empty key \<open>K\<close> of uppercase
  letters, encrypting \<open>T\<close> under \<open>K\<close> in an engine constructed from \<open>T\<close> and decrypting the
  result under \<open>K\<close> yields the uppercased \<open>T\<close>, whether the ciphertext is handed to the
  same engine with \<open>setText\<close> or to a new engine.
\<close>

theorem round_trip_nonempty:
  assumes "T \<noteq> []" and "K \<noteq> []" and "\<forall>ch\<in>set K. isAZ ch"
  shows "fst (decrypt (setText (Vigenere_new (Some T) (Some K))
                         (fst (encrypt (Vigenere_new (Some T) (Some K)) (Some K))))
                (Some K)) = toUpperCase T
       \<and> fst (decrypt (Vigenere_new
                         (Some (fst (encrypt (Vigenere_new (Some T) (Some K)) (Some K))))
                         (Some K)) None) = toUpperCase T"
proof -
  have ne: "encryptLoop (toUpperCase T) K \<noteq> []"
    using assms(1) length_encryptLoop[of "toUpperCase T" K] by (auto simp: toUpperCase_def)
  have K: "toUpperCase K = K"
    using assms(3) by (intro toUpperCase_fixed) (auto simp: isAZ_def)
  show ?thesis
    using assms(1,2) ne K
    by (simp add: decrypt_def encrypt_def setText_def Vigenere_new_def orElse_def Let_def
        decryptLoop_encryptLoop toUpperCase_encryptLoop)
qed

theorem round_trip_nonempty_witness:
  "''Attack at dawn!'' \<noteq> [] \<and> ''LEMON'' \<noteq> [] \<and> list_all isAZ ''LEMON'' \<and>
   fst (decrypt (setText (Vigenere_new (Some ''Attack at dawn!'') (Some ''LEMON''))
                   (fst (encrypt (Vigenere_new (Some ''Attack at dawn!'') (Some ''LEMON''))
                           (Some ''LEMON''))))
          (Some ''LEMON'')) = toUpperCase ''Attack at dawn!'' \<and>
   fst (decrypt (Vigenere_new
                   (Some (fst (encrypt (Vigenere_new (Some ''Attack at dawn!'') (Some ''LEMON''))
                                 (Some ''LEMON''))))
                   (Some ''LEMON'')) None) = toUpperCase ''Attack at dawn!''"
proof -
  have h1: "''Attack at dawn!'' \<noteq> []" and h2: "''LEMON'' \<noteq> []" by simp_all
  have h3: "\<forall>ch\<in>set ''LEMON''. isAZ ch" by (simp add: isAZ_def charCode_def)
  show ?thesis using h1 h2 h3 round_trip_nonempty[OF h1 h2 h3] by (simp add: list_all_iff)
qed

text \<open>
  The constructor replaces an empty text by a single space, so for the empty text the
  round trip returns a space, which is not the uppercased empty text.
\<close>

theorem round_trip_empty_text_counterexample:
  "fst (decrypt (setText (Vigenere_new (Some '''') (Some ''A''))
                   (fst (encrypt (Vigenere_new (Some '''') (Some ''A'')) (Some ''A''))))
          (Some ''A'')) \<noteq> toUpperCase ''''"
  by code_simp

text \<open>
  C10: what \<open>encrypt\<close> and \<open>decrypt\<close> return depends on the working text and the key
  used, and not on the stored \<open>plaintext\<close> and \<open>ciphertext\<close>. So \<open>decrypt\<close> after
  \<open>encrypt\<close> on one engine returns the working text shifted down by the key, not the
  decryption of the ciphertext just produced: with working text \<open>A\<close> and key \<open>B\<close> it
  returns \<open>Z\<close>.
\<close>

theorem outputs_depend_on_working_text:
  "fst (encrypt (v\<lparr>plaintext := p, ciphertext := c\<rparr>) newKey) = fst (encrypt v newKey) \<and>
   fst (decrypt (v\<lparr>plaintext := p, ciphertext := c\<rparr>) newKey) = fst (decrypt v newKey) \<and>
   fst (encrypt v newKey) = encryptLoop (cryptotext v) (orElse newKey (key v)) \<and>
   fst (decrypt v newKey) = decryptLoop (cryptotext v) (orElse newKey (key v)) \<and>
   fst (decrypt (snd (encrypt v (Some K))) (Some K)) = fst (decrypt v (Some K)) \<and>
   fst (decrypt (snd (encrypt (Vigenere_new (Some ''A'') (Some ''B'')) (Some ''B''))) (Some ''B''))
     = ''Z'' \<and>
   cryptotext (Vigenere_new (Some ''A'') (Some ''B'')) = ''A''"
proof -
  have a: "fst (decrypt (snd (encrypt (Vigenere_new (Some ''A'') (Some ''B'')) (Some ''B'')))
                  (Some ''B'')) = ''Z''"
    by code_simp
  have b: "cryptotext (Vigenere_new (Some ''A'') (Some ''B'')) = ''A''"
    by code_simp
  have c: "fst (encrypt (v\<lparr>plaintext := p, ciphertext := c\<rparr>) newKey) = fst (encrypt v newKey)"
    "fst (decrypt (v\<lparr>plaintext := p, ciphertext := c\<rparr>) newKey) = fst (decrypt v newKey)"
    "fst (encrypt v newKey) = encryptLoop (cryptotext v) (orElse newKey (key v))"
    "fst (decrypt v newKey) = decryptLoop (cryptotext v) (orElse newKey (key v))"
    "fst (decrypt (snd (encrypt v (Some K))) (Some K)) = fst (decrypt v (Some K))"
    by (simp_all add: encrypt_def decrypt_def Let_def)
  from a b c show ?thesis by (intro conjI)
qed

section \<open>Properties of the factor table\<close>

lemma le_sqrt_iff: "real i \<le> sqrt (real n) \<longleftrightarrow> i * i \<le> n"
proof -
  have "real i = sqrt (real (i * i))" by simp
  then have "real i \<le> sqrt (real n) \<longleftrightarrow> sqrt (real (i * i)) \<le> sqrt (real n)" by simp
  also have "\<dots> \<longleftrightarrow> real (i * i) \<le> real n" by (rule real_sqrt_le_iff)
  also have "\<dots> \<longleftrightarrow> i * i \<le> n" by (rule of_nat_le_iff)
  finally show ?thesis .
qed

lemma factorLoop_eq:
  "factorLoop n i fl = fl @ filter (\<lambda>j. j * j \<le> n \<and> n mod j = 0) [i..<Suc n]"
proof (induction n i fl rule: factorLoop.induct)
  case (1 n i fl)
  let ?P = "\<lambda>j. j * j \<le> n \<and> n mod j = 0"
  show ?case
  proof (cases "i * i \<le> n")
    case True
    have "i \<le> i * i" by (cases i) simp_all
    with True have "i < Suc n" by linarith
    then have upt: "[i..<Suc n] = i # [Suc i..<Suc n]" by (rule upt_conv_Cons)
    have "factorLoop n i fl = factorLoop n (Suc i) (if n mod i = 0 then fl @ [i] else fl)"
      using True by (subst factorLoop.simps) (simp only: if_True)
    also have "\<dots> = (if n mod i = 0 then fl @ [i] else fl) @ filter ?P [Suc i..<Suc n]"
      using 1[OF True] .
    also have "\<dots> = fl @ filter ?P (i # [Suc i..<Suc n])"
      using True by (simp del: upt_Suc factorLoop.simps)
    finally show ?thesis by (simp only: upt)
  next
    case False
    have "filter ?P [i..<Suc n] = []"
      unfolding filter_empty_conv
    proof (intro ballI)
      fix j assume "j \<in> set [i..<Suc n]"
      then have "i \<le> j" by (simp del: upt_Suc)
      then have "i * i \<le> j * j" by (simp add: mult_le_mono)
      with False show "\<not> ?P j" by linarith
    qed
    moreover have "factorLoop n i fl = fl"
      using False by (subst factorLoop.simps) (simp only: if_False)
    ultimately show ?thesis by (simp only: append_Nil2)
  qed
qed

lemma factorLoop_factorsUpToSqrt: "factorLoop n 2 [] = factorsUpToSqrt n"
  by (simp only: factorLoop_eq factorsUpToSqrt_def append_Nil)

lemma arr_get_arr_set: "arr_get (arr_set i v xs) j = (if j = i then Some v else arr_get xs j)"
  by (induction i v xs rule: arr_set.induct) (auto simp: arr_get_def)

lemma ftInv_factorGap: "ftInv ft \<Longrightarrow> ftInv (factorGap n ft)"
  by (auto simp: ftInv_def factorGap_def arr_get_arr_set factorLoop_factorsUpToSqrt
      simp del: factorLoop.simps split: option.splits if_splits)

lemma fold_invariant: "(\<And>x s. P s \<Longrightarrow> P (f x s)) \<Longrightarrow> P s \<Longrightarrow> P (fold f xs s)"
  by (induction xs arbitrary: s) auto

lemma set_factorsUpToSqrt:
  "set (factorsUpToSqrt n) = {i. 2 \<le> i \<and> real i \<le> sqrt (real n) \<and> n mod i = 0}"
proof -
  have "i < Suc n" if "i * i \<le> n" for i
  proof -
    have "i \<le> i * i" by (cases i) simp_all
    with that show ?thesis by linarith
  qed
  then show ?thesis
    unfolding factorsUpToSqrt_def le_sqrt_iff by (auto simp del: upt_Suc)
qed


lemma searchLoop_gaps:
  "searchLoop ct k s c i t = Inr t' \<Longrightarrow> \<exists>gs. snd t' = fold factorGap gs (snd t)"
proof (induction ct k s c i t rule: searchLoop.induct)
  case (1 ct k s c i st ft)
  note run = \<open>searchLoop ct k s c i (st, ft) = Inr t'\<close>
  show ?case
  proof (cases "indexOf ct c i")
    case None
    then have "searchLoop ct k s c i (st, ft) = Inr (st, ft)"
      by (subst searchLoop.simps) (simp del: searchLoop.simps)
    with run have "snd t' = fold factorGap [] (snd (st, ft))" by simp
    then show ?thesis by (rule exI)
  next
    case (Some n)
    show ?thesis
    proof (cases "k = 0")
      case True
      with Some have "searchLoop ct k s c i (st, ft) = Inr (st, ft)"
        by (subst searchLoop.simps) (simp del: searchLoop.simps)
      with run have "snd t' = fold factorGap [] (snd (st, ft))" by simp
      then show ?thesis by (rule exI)
    next
      case False
      show ?thesis
      proof (cases "map_of st c = None \<and> c \<in> set inheritedNames")
        case True
        with Some False have "searchLoop ct k s c i (st, ft) = Inl TypeError"
          by (subst searchLoop.simps) (simp del: searchLoop.simps)
        with run show ?thesis by simp
      next
        case noThrow: False
        let ?st = "AList.update c ((case map_of st c of None \<Rightarrow> [] | Some l \<Rightarrow> l) @
                   [\<lparr>indexOfAppearance = s, gapToNextAppearance = n - s\<rparr>]) st"
        have step: "searchLoop ct k s c i (st, ft)
                = searchLoop ct k s c (n + k) (?st, factorGap (n - s) ft)"
          by (subst searchLoop.simps)
             (simp only: Some option.case False noThrow if_False Let_def)
        with run have "searchLoop ct k s c (n + k) (?st, factorGap (n - s) ft) = Inr t'"
          by simp
        from 1(1)[OF Some False noThrow refl refl refl refl this]
        obtain gs where "snd t' = fold factorGap gs (factorGap (n - s) ft)" by auto
        then have "snd t' = fold factorGap ((n - s) # gs) (snd (st, ft))" by simp
        then show ?thesis by (rule exI)
      qed
    qed
  qed
qed

lemma forEach_gaps:
  assumes "\<And>x t t'. body x t = Inr t' \<Longrightarrow> \<exists>gs. snd t' = fold factorGap gs (snd t)"
    and "forEach body xs t = Inr t'"
  shows "\<exists>gs. snd t' = fold factorGap gs (snd t)"
  using assms(2)
proof (induction xs arbitrary: t)
  case Nil
  then have "snd t' = fold factorGap [] (snd t)" by simp
  then show ?case by (rule exI)
next
  case (Cons x xs)
  from Cons.prems obtain t1 where b: "body x t = Inr t1" and r: "forEach body xs t1 = Inr t'"
    by (cases "body x t") simp_all
  from assms(1)[OF b] obtain g1 where g1: "snd t1 = fold factorGap g1 (snd t)" by blast
  from Cons.IH[OF r] obtain g2 where g2: "snd t' = fold factorGap g2 (snd t1)" by blast
  have "snd t' = fold factorGap (g1 @ g2) (snd t)" using g1 g2 by simp
  then show ?case by (rule exI)
qed

lemma recurrenceSearch_gaps:
  assumes "recurrenceSearch ct = Inr (st, ft)"
  shows "\<exists>gs. ft = fold factorGap gs []"
proof -
  have sl: "\<exists>gs. snd t' = fold factorGap gs (snd t)" if "startLoop ct k t = Inr t'" for k t t'
    using that unfolding startLoop_def by (rule forEach_gaps[rotated]) (rule searchLoop_gaps)
  have "\<exists>gs. snd (st, ft) = fold factorGap gs (snd (([], [])::tables))"
    using assms unfolding recurrenceSearch_def by (rule forEach_gaps[rotated]) (rule sl)
  then show ?thesis by (simp only: snd_conv)
qed

lemma ftInv_fold: "ftInv (fold factorGap gs [])"
proof (rule fold_invariant)
  show "ftInv []" by (simp add: ftInv_def arr_get_def)
qed (rule ftInv_factorGap)

text \<open>
  C7: in every factor table built by \<open>factorGap\<close> from the empty table, and so in the
  table of \<open>recurrenceSearch\<close>, the factor list of a gap \<open>n\<close> holds exactly the integers
  \<open>i\<close> with \<open>2 \<le> i \<le> sqrt n\<close> that divide \<open>n\<close>: neither 1, nor \<open>n\<close>, nor a cofactor
  above \<open>sqrt n\<close> is recorded.
\<close>

theorem factor_lists_exact:
  assumes "ft = fold factorGap gs [] \<or> recurrenceSearch ct = Inr (st, ft)"
    and "arr_get ft n = Some e"
  shows "set (factorList e) = {i. 2 \<le> i \<and> real i \<le> sqrt (real n) \<and> n mod i = 0} \<and>
         1 \<notin> set (factorList e) \<and> n \<notin> set (factorList e) \<and>
         (\<forall>i. sqrt (real n) < real i \<longrightarrow> i \<notin> set (factorList e))"
proof -
  have "ftInv ft" using assms(1) recurrenceSearch_gaps[of ct st ft] ftInv_fold by auto
  then have fl: "factorList e = factorsUpToSqrt n" using assms(2) by (simp add: ftInv_def)
  have n: "\<not> (2 \<le> n \<and> n * n \<le> n)" by (cases n) auto
  have "1 \<notin> set (factorsUpToSqrt n)" by (simp add: set_factorsUpToSqrt)
  moreover have "n \<notin> set (factorsUpToSqrt n)" using n by (simp add: set_factorsUpToSqrt le_sqrt_iff)
  moreover have "\<forall>i. sqrt (real n) < real i \<longrightarrow> i \<notin> set (factorsUpToSqrt n)"
    by (simp add: set_factorsUpToSqrt)
  ultimately show ?thesis unfolding fl by (simp add: set_factorsUpToSqrt)
qed

theorem factor_lists_exact_witness:
  "recurrenceSearch ''ABCDABCDA'' =
     Inr ([(''AB'', [\<lparr>indexOfAppearance = 0, gapToNextAppearance = 4\<rparr>]),
           (''BC'', [\<lparr>indexOfAppearance = 1, gapToNextAppearance = 4\<rparr>]),
           (''CD'', [\<lparr>indexOfAppearance = 2, gapToNextAppearance = 4\<rparr>]),
           (''DA'', [\<lparr>indexOfAppearance = 3, gapToNextAppearance = 4\<rparr>]),
           (''ABC'', [\<lparr>indexOfAppearance = 0, gapToNextAppearance = 4\<rparr>]),
           (''BCD'', [\<lparr>indexOfAppearance = 1, gapToNextAppearance = 4\<rparr>]),
           (''CDA'', [\<lparr>indexOfAppearance = 2, gapToNextAppearance = 4\<rparr>])],
          [(4, \<lparr>frequency = 7, factorList = [2]\<rparr>)]) \<and>
   arr_get [(4, \<lparr>frequency = 7, factorList = [2]\<rparr>)] 4
     = Some \<lparr>frequency = 7, factorList = [2]\<rparr> \<and>
   set (factorList \<lparr>frequency = 7, factorList = [2]\<rparr>)
     = {i. 2 \<le> i \<and> real i \<le> sqrt (real (4::nat)) \<and> (4::nat) mod i = 0}"
proof -
  have r: "recurrenceSearch ''ABCDABCDA'' =
     Inr ([(''AB'', [\<lparr>indexOfAppearance = 0, gapToNextAppearance = 4\<rparr>]),
           (''BC'', [\<lparr>indexOfAppearance = 1, gapToNextAppearance = 4\<rparr>]),
           (''CD'', [\<lparr>indexOfAppearance = 2, gapToNextAppearance = 4\<rparr>]),
           (''DA'', [\<lparr>indexOfAppearance = 3, gapToNextAppearance = 4\<rparr>]),
           (''ABC'', [\<lparr>indexOfAppearance = 0, gapToNextAppearance = 4\<rparr>]),
           (''BCD'', [\<lparr>indexOfAppearance = 1, gapToNextAppearance = 4\<rparr>]),
           (''CDA'', [\<lparr>indexOfAppearance = 2, gapToNextAppearance = 4\<rparr>])],
          [(4, \<lparr>frequency = 7, factorList = [2]\<rparr>)])"
    by code_simp
  have h: "arr_get [(4, \<lparr>frequency = 7, factorList = [2]\<rparr>)] 4
             = Some \<lparr>frequency = 7, factorList = [2]\<rparr>"
    by (simp add: arr_get_def)
  from factor_lists_exact[OF disjI2[OF r] h] have
    "set (factorList \<lparr>frequency = 7, factorList = [2]\<rparr>)
       = {i. 2 \<le> i \<and> real i \<le> sqrt (real (4::nat)) \<and> (4::nat) mod i = 0}"
    by (rule conjunct1)
  with r h show ?thesis by (intro conjI)
qed

section \<open>Properties of the ranking\<close>

lemma jpos_compareRanks: "jpos (compareRanks x y) \<longleftrightarrow> aggregate x < aggregate y"
  by (simp add: compareRanks_def jsub_def)

lemma insertBy_compareRanks:
  "insertBy compareRanks x ys = insort_key (\<lambda>c. - int (aggregate c)) x ys"
  by (induction ys) (auto simp: jpos_compareRanks)

lemma sortBy_compareRanks: "sortBy compareRanks xs = sort_key (\<lambda>c. - int (aggregate c)) xs"
  by (induction xs) (simp_all add: sortBy_def insertBy_compareRanks)

lemma find_takeWhile:
  "List.find P xs = Some c \<Longrightarrow>
     length (takeWhile (\<lambda>x. \<not> P x) xs) < length xs \<and> xs ! length (takeWhile (\<lambda>x. \<not> P x) xs) = c"
  by (induction xs) (auto split: if_splits)

lemma firstKeyLengthLoop_find:
  "firstKeyLengthLoop ranks i =
     (case List.find (\<lambda>c. \<not> factor c < 4) (drop i ranks) of
        None \<Rightarrow> Inl TypeError
      | Some c \<Rightarrow> Inr (i + length (takeWhile (\<lambda>c. \<not> \<not> factor c < 4) (drop i ranks))))"
proof (induction ranks i rule: firstKeyLengthLoop.induct)
  case (1 ranks i)
  show ?case
  proof (cases "i < length ranks")
    case False
    then have "firstKeyLengthLoop ranks i = Inl TypeError"
      by (subst firstKeyLengthLoop.simps) (simp add: factorAt_def del: firstKeyLengthLoop.simps)
    with False show ?thesis by simp
  next
    case True
    then have d: "drop i ranks = ranks ! i # drop (Suc i) ranks"
      by (simp add: Cons_nth_drop_Suc)
    have fa: "factorAt ranks i = Inr (factor (ranks ! i))" using True by (simp add: factorAt_def)
    show ?thesis
    proof (cases "factor (ranks ! i) < 4")
      case small: True
      have "firstKeyLengthLoop ranks i = firstKeyLengthLoop ranks (Suc i)"
        using fa small by (subst firstKeyLengthLoop.simps) (simp del: firstKeyLengthLoop.simps)
      also note 1[OF fa small]
      finally show ?thesis using small by (simp add: d split: option.splits)
    next
      case big: False
      have "firstKeyLengthLoop ranks i = Inr i"
        using fa big by (subst firstKeyLengthLoop.simps) (simp del: firstKeyLengthLoop.simps)
      then show ?thesis using big by (simp add: d)
    qed
  qed
qed

lemma firstKeyLengthLoop_found:
  assumes "List.find (\<lambda>c. 4 \<le> factor c) ranks = Some c"
  shows "\<exists>j. firstKeyLengthLoop ranks 0 = Inr j \<and> factorAt ranks j = Inr (factor c)"
proof -
  have eq: "(\<lambda>c. \<not> factor c < 4) = (\<lambda>c. 4 \<le> factor c)" by (simp add: not_less)
  let ?j = "length (takeWhile (\<lambda>c. \<not> 4 \<le> factor c) ranks)"
  from find_takeWhile[OF assms] have j: "?j < length ranks" "ranks ! ?j = c" by simp_all
  have eq2: "(\<lambda>c. \<not> 4 \<le> factor c) = (\<lambda>c. factor c < 4)" by (simp add: not_le)
  have "firstKeyLengthLoop ranks 0 = Inr ?j"
    using assms by (simp add: firstKeyLengthLoop_find eq eq2 del: firstKeyLengthLoop.simps)
  moreover have "factorAt ranks ?j = Inr (factor c)" using j by (simp add: factorAt_def)
  ultimately show ?thesis by blast
qed

lemma keys_arr_set: "set (map fst (arr_set i v xs)) = insert i (set (map fst xs))"
  by (induction i v xs rule: arr_set.induct) auto

lemma sorted_arr_set:
  "sorted_wrt (<) (map fst xs) \<Longrightarrow> sorted_wrt (<) (map fst (arr_set i v xs))"
proof (induction i v xs rule: arr_set.induct)
  case (1 i v)
  then show ?case by simp
next
  case (2 i v j w xs)
  show ?case
  proof (cases "i < j")
    case True
    with 2(2) show ?thesis by auto
  next
    case False
    show ?thesis
    proof (cases "i = j")
      case True
      with 2(2) show ?thesis by simp
    next
      case ne: False
      with False have ji: "j < i" by simp
      from 2(2) have s: "sorted_wrt (<) (map fst xs)" and b: "\<forall>k\<in>set (map fst xs). j < k"
        by simp_all
      have "sorted_wrt (<) (map fst (arr_set i v xs))" using 2(1)[OF False ne s] .
      moreover have "\<forall>k\<in>set (map fst (arr_set i v xs)). j < k"
        unfolding keys_arr_set using b ji by simp
      ultimately show ?thesis using False ne by simp
    qed
  qed
qed

lemma entries_arr_set:
  "sorted_wrt (<) (map fst xs) \<Longrightarrow>
     set (arr_set i v xs) = insert (i, v) {(j, w). (j, w) \<in> set xs \<and> j \<noteq> i}"
proof (induction i v xs rule: arr_set.induct)
  case (1 i v)
  then show ?case by simp
next
  case (2 i v j w xs)
  from 2(2) have s: "sorted_wrt (<) (map fst xs)" and b: "\<forall>p\<in>set xs. j < fst p"
    by simp_all
  show ?case
  proof (cases "i < j")
    case True
    with b have "\<forall>p\<in>set xs. fst p \<noteq> i" by auto
    with True show ?thesis by auto
  next
    case False
    show ?thesis
    proof (cases "i = j")
      case True
      with b have "\<forall>p\<in>set xs. fst p \<noteq> i" by auto
      with True show ?thesis by auto
    next
      case ne: False
      from 2(1)[OF False ne s] False ne show ?thesis by auto
    qed
  qed
qed

lemma arr_get_sorted:
  "sorted_wrt (<) (map fst xs) \<Longrightarrow> arr_get xs f = Some c \<longleftrightarrow> (f, c) \<in> set xs"
  by (simp add: arr_get_def strict_sorted_iff)

lemma arr_get_None: "arr_get xs f = None \<longleftrightarrow> f \<notin> set (map fst xs)"
  by (simp add: arr_get_def map_of_eq_None_iff)

lemma cfInv_cong: "cfInv cf K A \<Longrightarrow> (\<And>g. A g = B g) \<Longrightarrow> cfInv cf K B"
  by (simp add: cfInv_def)

lemma addFactor_inv:
  assumes "cfInv cf K A"
  shows "cfInv (addFactor fr f cf) (insert f K) (A(f := A f + fr))"
proof -
  from assms have s: "sorted_wrt (<) (map fst cf)" and k: "set (map fst cf) = K"
    and e: "\<forall>(g, c)\<in>set cf. c = \<lparr>factor = g, aggregate = A g\<rparr>"
    and z: "\<forall>g. g \<notin> K \<longrightarrow> A g = 0"
    by (simp_all add: cfInv_def)
  show ?thesis
  proof (cases "arr_get cf f")
    case None
    then have "f \<notin> K" using k by (simp add: arr_get_None)
    with z have "A f = 0" by simp
    then show ?thesis
      using None s k e z
      by (auto simp: cfInv_def addFactor_def sorted_arr_set keys_arr_set entries_arr_set
          simp del: set_map)
  next
    case (Some c)
    then have "(f, c) \<in> set cf" using s by (simp add: arr_get_sorted)
    with e have "c = \<lparr>factor = f, aggregate = A f\<rparr>" by auto
    then show ?thesis
      using Some s k e z
      by (auto simp: cfInv_def addFactor_def sorted_arr_set keys_arr_set entries_arr_set
          simp del: set_map)
  qed
qed

lemma inner_inv:
  assumes "distinct fl" and "cfInv cf K A"
  shows "cfInv (fold (addFactor fr) fl cf) (K \<union> set fl)
           (\<lambda>g. A g + (if g \<in> set fl then fr else 0))"
  using assms
proof (induction fl arbitrary: cf K A)
  case Nil
  then show ?case by simp
next
  case (Cons f fl)
  from Cons.prems have d: "distinct fl" and nf: "f \<notin> set fl" by simp_all
  have "cfInv (addFactor fr f cf) (insert f K) (A(f := A f + fr))"
    using Cons.prems(2) by (rule addFactor_inv)
  from Cons.IH[OF d this]
  have "cfInv (fold (addFactor fr) (f # fl) cf) (K \<union> set (f # fl))
          (\<lambda>g. (A(f := A f + fr)) g + (if g \<in> set fl then fr else 0))"
    by simp
  then show ?case
    by (rule cfInv_cong) (use nf in auto)
qed

lemma aggregateFrequency_Cons:
  "aggregateFrequency ((gap, e) # ft) g
     = (if g \<in> set (factorList e) then frequency e else 0) + aggregateFrequency ft g"
  by (simp add: aggregateFrequency_def)

lemma outer_inv:
  assumes "\<forall>(gap, e)\<in>set ft. distinct (factorList e)" and "cfInv cf K A"
  shows "cfInv (fold (\<lambda>(gap, e) cf. fold (addFactor (frequency e)) (factorList e) cf) ft cf)
           (K \<union> set (concat (map (\<lambda>(gap, e). factorList e) ft)))
           (\<lambda>g. A g + aggregateFrequency ft g)"
  using assms
proof (induction ft arbitrary: cf K A)
  case Nil
  then show ?case by (simp add: aggregateFrequency_def)
next
  case (Cons ge ft)
  obtain gap e where ge: "ge = (gap, e)" by (cases ge)
  from Cons.prems(1) have d: "distinct (factorList e)"
    and rest: "\<forall>(gap, e)\<in>set ft. distinct (factorList e)"
    by (simp_all add: ge)
  note step = inner_inv[OF d Cons.prems(2), of "frequency e"]
  from Cons.IH[OF rest step]
  have "cfInv (fold (\<lambda>(gap, e) cf. fold (addFactor (frequency e)) (factorList e) cf)
                 (ge # ft) cf)
          (K \<union> set (factorList e) \<union> set (concat (map (\<lambda>(gap, e). factorList e) ft)))
          (\<lambda>g. A g + (if g \<in> set (factorList e) then frequency e else 0)
                 + aggregateFrequency ft g)"
    by (simp add: ge)
  moreover have "K \<union> set (factorList e) \<union> set (concat (map (\<lambda>(gap, e). factorList e) ft))
          = K \<union> set (concat (map (\<lambda>(gap, e). factorList e) (ge # ft)))"
    by (simp add: ge Un_assoc)
  ultimately show ?case
    by (simp only:) (rule cfInv_cong, assumption, simp add: ge aggregateFrequency_Cons)
qed

lemma cfInv_list:
  assumes "cfInv cf K A"
  shows "map snd cf = map (\<lambda>f. \<lparr>factor = f, aggregate = A f\<rparr>) (map fst cf)"
    and "sorted (map fst cf)" and "distinct (map fst cf)" and "set (map fst cf) = K"
proof -
  from assms have e: "\<forall>(g, c)\<in>set cf. c = \<lparr>factor = g, aggregate = A g\<rparr>"
    by (simp add: cfInv_def)
  then show "map snd cf = map (\<lambda>f. \<lparr>factor = f, aggregate = A f\<rparr>) (map fst cf)"
    by (induction cf) auto
  from assms show "sorted (map fst cf)" "distinct (map fst cf)" "set (map fst cf) = K"
    by (simp_all add: cfInv_def strict_sorted_iff)
qed

text \<open>
  The loop of the source computes the aggregate frequencies of the specification, at
  the recorded factors in ascending order.
\<close>

lemma aggregateLoop_spec:
  assumes "\<forall>(gap, e)\<in>set ft. distinct (factorList e)"
  shows "map snd (aggregateLoop ft)
           = map (\<lambda>f. \<lparr>factor = f, aggregate = aggregateFrequency ft f\<rparr>) (recordedFactors ft)"
proof -
  have "cfInv [] {} (\<lambda>g. 0)" by (simp add: cfInv_def)
  from outer_inv[OF assms this]
  have inv: "cfInv (aggregateLoop ft) (set (concat (map (\<lambda>(gap, e). factorList e) ft)))
               (aggregateFrequency ft)"
    by (simp add: aggregateLoop_def)
  note l = cfInv_list[OF inv]
  have "map fst (aggregateLoop ft) = recordedFactors ft"
    unfolding recordedFactors_def
  proof (rule sorted_distinct_set_unique)
    show "set (map fst (aggregateLoop ft))
            = set (sort (remdups (concat (map (\<lambda>(gap, e). factorList e) ft))))"
      using l(4) by (simp only: set_sort set_remdups)
  qed (simp_all add: l(2,3))
  with l(1) show ?thesis by simp
qed


lemma set_arr_set: "set (arr_set i v xs) \<subseteq> insert (i, v) (set xs)"
  by (induction i v xs rule: arr_set.induct) auto

lemma factorGap_distinct:
  assumes "\<forall>(n, e)\<in>set ft. distinct (factorList e)"
  shows "\<forall>(n, e)\<in>set (factorGap g ft). distinct (factorList e)"
proof (cases "arr_get ft g")
  case None
  have "distinct (factorLoop g 2 [])"
    by (simp only: factorLoop_factorsUpToSqrt factorsUpToSqrt_def distinct_filter distinct_upt)
  then show ?thesis
    using None assms set_arr_set[of g "\<lparr>frequency = 1, factorList = factorLoop g 2 []\<rparr>" ft]
    by (auto simp: factorGap_def simp del: factorLoop.simps)
next
  case (Some e)
  then have "(g, e) \<in> set ft" by (simp add: arr_get_def map_of_SomeD)
  with assms have "distinct (factorList e)" by auto
  then show ?thesis
    using Some assms set_arr_set[of g "e\<lparr>frequency := frequency e + 1\<rparr>" ft]
    by (auto simp: factorGap_def)
qed

lemma recurrenceSearch_distinct:
  assumes "recurrenceSearch ct = Inr (st, ft)"
  shows "\<forall>(n, e)\<in>set ft. distinct (factorList e)"
proof -
  from recurrenceSearch_gaps[OF assms] obtain gs where gs: "ft = fold factorGap gs []" by blast
  have "\<forall>(n, e)\<in>set (fold factorGap gs []). distinct (factorList e)"
    by (rule fold_invariant) (simp_all add: factorGap_distinct)
  then show ?thesis by (simp only: gs)
qed

text \<open>
  When \<open>recurrenceSearch\<close> returns, what the two variants sort is the ranking of the
  specification.
\<close>

lemma sorted_ranks:
  assumes "recurrenceSearch ct = Inr (st, ft)"
  shows "sortBy compareRanks (map snd (aggregateLoop ft)) = rankedFactors ft"
  by (simp only: sortBy_compareRanks rankedFactors_def
      aggregateLoop_spec[OF recurrenceSearch_distinct[OF assms]])

lemma kasiski_ranks:
  assumes "recurrenceSearch ct = Inr (st, ft)"
  shows "kasiskiExamination ct =
     (case firstKeyLengthLoop (rankedFactors ft) 0 of
        Inl e \<Rightarrow> Inl e
      | Inr j \<Rightarrow> (case factorAt (rankedFactors ft) j of
           Inl e \<Rightarrow> Inl e
         | Inr f \<Rightarrow> Inr \<lparr>substringTable = st, factorTable = ft,
                         candidateFreqs = aggregateLoop ft,
                         frequencyRanks = rankedFactors ft, firstKeyLength = f\<rparr>))"
  unfolding kasiskiExamination_def assms sum.case prod.case Let_def sorted_ranks[OF assms]
  by (rule refl)

lemma kasiski_combined_ranks:
  assumes "recurrenceSearch ct = Inr (st, ft)"
  shows "kasiskiExamination_combined ct =
     (case factorAt (rankedFactors ft) 0 of
        Inl e \<Rightarrow> Inl e
      | Inr f \<Rightarrow> Inr \<lparr>substringTable = st, factorTable = ft,
                      candidateFreqs = aggregateLoop ft,
                      frequencyRanks = rankedFactors ft, firstKeyLength = f\<rparr>)"
  unfolding kasiskiExamination_combined_def assms sum.case prod.case Let_def
    sorted_ranks[OF assms]
  by (rule refl)

lemma rankedFactors_descending:
  "sorted (map (\<lambda>c. - int (aggregate c)) (rankedFactors ft))"
  by (simp add: rankedFactors_def)

lemma rankedFactors_stable:
  "filter (\<lambda>c. aggregate c = k) (rankedFactors ft)
     = filter (\<lambda>c. aggregate c = k)
         (map (\<lambda>f. \<lparr>factor = f, aggregate = aggregateFrequency ft f\<rparr>) (recordedFactors ft))"
  using sort_key_stable[of "\<lambda>c. - int (aggregate c)" "- int k"
      "map (\<lambda>f. \<lparr>factor = f, aggregate = aggregateFrequency ft f\<rparr>) (recordedFactors ft)"]
  by (simp add: rankedFactors_def)

text \<open>
  C2, as amended: for every ciphertext on which \<open>recurrenceSearch\<close> returns and some
  recorded factor is at least 4, the \<open>kasiskiExamination\<close> of \<open>kasiski.js\<close> returns, with
  \<open>frequencyRanks\<close> the recorded factors sorted descending by aggregate frequency (the sum
  of the frequencies of the gaps that list the factor; stable on ties), as
  \<open>firstKeyLength\<close> the highest-ranked factor that is at least 4; the
  \<open>kasiskiExamination\<close> of the combined file returns the highest-ranked factor, whatever
  its value.
\<close>

theorem ranked_key_length:
  assumes "recurrenceSearch ct = Inr (st, ft)"
    and "\<exists>c\<in>set (rankedFactors ft). 4 \<le> factor c"
  shows "(\<exists>r c. kasiskiExamination ct = Inr r \<and> frequencyRanks r = rankedFactors ft \<and>
            List.find (\<lambda>c. 4 \<le> factor c) (rankedFactors ft) = Some c \<and>
            firstKeyLength r = factor c) \<and>
         (\<exists>r. kasiskiExamination_combined ct = Inr r \<and> frequencyRanks r = rankedFactors ft \<and>
            firstKeyLength r = factor (hd (rankedFactors ft)))"
proof -
  from assms(2) obtain c where c: "List.find (\<lambda>c. 4 \<le> factor c) (rankedFactors ft) = Some c"
    by (cases "List.find (\<lambda>c. 4 \<le> factor c) (rankedFactors ft)") (auto simp: find_None_iff)
  from firstKeyLengthLoop_found[OF c] obtain j where
    j: "firstKeyLengthLoop (rankedFactors ft) 0 = Inr j"
       "factorAt (rankedFactors ft) j = Inr (factor c)"
    by blast
  have first: "\<exists>r c. kasiskiExamination ct = Inr r \<and> frequencyRanks r = rankedFactors ft \<and>
            List.find (\<lambda>c. 4 \<le> factor c) (rankedFactors ft) = Some c \<and>
            firstKeyLength r = factor c"
    using c j by (simp add: kasiski_ranks[OF assms(1)] del: firstKeyLengthLoop.simps)
  from assms(2) have ne: "rankedFactors ft \<noteq> []" by auto
  then have "factorAt (rankedFactors ft) 0 = Inr (factor (hd (rankedFactors ft)))"
    by (simp add: factorAt_def hd_conv_nth)
  then have second: "\<exists>r. kasiskiExamination_combined ct = Inr r \<and>
            frequencyRanks r = rankedFactors ft \<and>
            firstKeyLength r = factor (hd (rankedFactors ft))"
    by (simp add: kasiski_combined_ranks[OF assms(1)])
  from first second show ?thesis by (rule conjI)
qed

text \<open>
  An example in which the accumulation decides: the gaps 16 and 20 both list the factors
  2 and 4, and the gap 25, recorded twice, lists 5, so all three factors have the
  aggregate frequency 2 and rank in ascending order.
\<close>

lemma recurrenceSearch_example:
  "recurrenceSearch ''ABCDEFaGHbcdefghABijklCDmnopqEFrGHs'' =
     Inr ([(''AB'', [\<lparr>indexOfAppearance = 0, gapToNextAppearance = 16\<rparr>]),
           (''CD'', [\<lparr>indexOfAppearance = 2, gapToNextAppearance = 20\<rparr>]),
           (''EF'', [\<lparr>indexOfAppearance = 4, gapToNextAppearance = 25\<rparr>]),
           (''GH'', [\<lparr>indexOfAppearance = 7, gapToNextAppearance = 25\<rparr>])],
          [(16, \<lparr>frequency = 1, factorList = [2, 4]\<rparr>), (20, \<lparr>frequency = 1, factorList = [2, 4]\<rparr>), (25, \<lparr>frequency = 2, factorList = [5]\<rparr>)])"
  by code_simp

lemma rankedFactors_example:
  "rankedFactors [(16, \<lparr>frequency = 1, factorList = [2, 4]\<rparr>), (20, \<lparr>frequency = 1, factorList = [2, 4]\<rparr>), (25, \<lparr>frequency = 2, factorList = [5]\<rparr>)] =
     [\<lparr>factor = 2, aggregate = 2\<rparr>, \<lparr>factor = 4, aggregate = 2\<rparr>, \<lparr>factor = 5, aggregate = 2\<rparr>]"
  by code_simp

theorem ranked_key_length_witness:
  "list_ex (\<lambda>c. 4 \<le> factor c) (rankedFactors [(16, \<lparr>frequency = 1, factorList = [2, 4]\<rparr>), (20, \<lparr>frequency = 1, factorList = [2, 4]\<rparr>), (25, \<lparr>frequency = 2, factorList = [5]\<rparr>)]) \<and>
   (\<exists>r c. kasiskiExamination ''ABCDEFaGHbcdefghABijklCDmnopqEFrGHs'' = Inr r \<and>
      frequencyRanks r = rankedFactors [(16, \<lparr>frequency = 1, factorList = [2, 4]\<rparr>), (20, \<lparr>frequency = 1, factorList = [2, 4]\<rparr>), (25, \<lparr>frequency = 2, factorList = [5]\<rparr>)] \<and>
      List.find (\<lambda>c. 4 \<le> factor c) (rankedFactors [(16, \<lparr>frequency = 1, factorList = [2, 4]\<rparr>), (20, \<lparr>frequency = 1, factorList = [2, 4]\<rparr>), (25, \<lparr>frequency = 2, factorList = [5]\<rparr>)]) = Some c \<and>
      firstKeyLength r = factor c) \<and>
   (\<exists>r. kasiskiExamination_combined ''ABCDEFaGHbcdefghABijklCDmnopqEFrGHs'' = Inr r \<and>
      frequencyRanks r = rankedFactors [(16, \<lparr>frequency = 1, factorList = [2, 4]\<rparr>), (20, \<lparr>frequency = 1, factorList = [2, 4]\<rparr>), (25, \<lparr>frequency = 2, factorList = [5]\<rparr>)] \<and>
      firstKeyLength r = factor (hd (rankedFactors [(16, \<lparr>frequency = 1, factorList = [2, 4]\<rparr>), (20, \<lparr>frequency = 1, factorList = [2, 4]\<rparr>), (25, \<lparr>frequency = 2, factorList = [5]\<rparr>)])))"
proof -
  have h: "\<exists>c\<in>set (rankedFactors [(16, \<lparr>frequency = 1, factorList = [2, 4]\<rparr>), (20, \<lparr>frequency = 1, factorList = [2, 4]\<rparr>), (25, \<lparr>frequency = 2, factorList = [5]\<rparr>)]). 4 \<le> factor c"
    unfolding rankedFactors_example by simp
  then have "list_ex (\<lambda>c. 4 \<le> factor c) (rankedFactors [(16, \<lparr>frequency = 1, factorList = [2, 4]\<rparr>), (20, \<lparr>frequency = 1, factorList = [2, 4]\<rparr>), (25, \<lparr>frequency = 2, factorList = [5]\<rparr>)])"
    by (simp only: list_ex_iff)
  with ranked_key_length[OF recurrenceSearch_example h] show ?thesis by (rule conjI[rotated])
qed

text \<open>
  On \<open>ABCDABCDA\<close> the only gap is 4 and its only recorded factor is 2: the loop of
  \<open>kasiski.js\<close> runs past the ranked entries and raises. On the example above the
  ranking is 2, 4, 5, and the combined file returns 2 where the highest-ranked factor
  of at least 4 is 4. On \<open>valueOfabcdefghivalueOf\<close> the gap 16 is recorded for the
  shorter substrings, and then the repeated substring \<open>valueOf\<close> makes
  \<open>recurrenceSearch\<close> raise, in both variants.
\<close>

theorem ranked_key_length_counterexample:
  "map_sum id snd (recurrenceSearch ''ABCDABCDA'')
     = Inr [(4, \<lparr>frequency = 7, factorList = [2]\<rparr>)] \<and>
   kasiskiExamination ''ABCDABCDA'' = Inl TypeError \<and>
   map_sum id snd (recurrenceSearch ''ABCDEFaGHbcdefghABijklCDmnopqEFrGHs'') = Inr [(16, \<lparr>frequency = 1, factorList = [2, 4]\<rparr>), (20, \<lparr>frequency = 1, factorList = [2, 4]\<rparr>), (25, \<lparr>frequency = 2, factorList = [5]\<rparr>)] \<and>
   map factor (rankedFactors [(16, \<lparr>frequency = 1, factorList = [2, 4]\<rparr>), (20, \<lparr>frequency = 1, factorList = [2, 4]\<rparr>), (25, \<lparr>frequency = 2, factorList = [5]\<rparr>)]) = [2, 4, 5] \<and>
   map_sum id firstKeyLength (kasiskiExamination_combined ''ABCDEFaGHbcdefghABijklCDmnopqEFrGHs'') = Inr 2 \<and>
   kasiskiExamination ''valueOfabcdefghivalueOf'' = Inl TypeError \<and>
   kasiskiExamination_combined ''valueOfabcdefghivalueOf'' = Inl TypeError"
proof -
  have a: "map_sum id snd (recurrenceSearch ''ABCDABCDA'')
             = Inr [(4, \<lparr>frequency = 7, factorList = [2]\<rparr>)]"
    "kasiskiExamination ''ABCDABCDA'' = Inl TypeError"
    by code_simp+
  have b: "map_sum id snd (recurrenceSearch ''ABCDEFaGHbcdefghABijklCDmnopqEFrGHs'') = Inr [(16, \<lparr>frequency = 1, factorList = [2, 4]\<rparr>), (20, \<lparr>frequency = 1, factorList = [2, 4]\<rparr>), (25, \<lparr>frequency = 2, factorList = [5]\<rparr>)]"
    unfolding recurrenceSearch_example by simp
  have c: "map factor (rankedFactors [(16, \<lparr>frequency = 1, factorList = [2, 4]\<rparr>), (20, \<lparr>frequency = 1, factorList = [2, 4]\<rparr>), (25, \<lparr>frequency = 2, factorList = [5]\<rparr>)]) = [2, 4, 5]"
    unfolding rankedFactors_example by simp
  have d: "map_sum id firstKeyLength (kasiskiExamination_combined ''ABCDEFaGHbcdefghABijklCDmnopqEFrGHs'') = Inr 2"
    unfolding kasiski_combined_ranks[OF recurrenceSearch_example] rankedFactors_example
    by (simp add: factorAt_def)
  have e: "kasiskiExamination ''valueOfabcdefghivalueOf'' = Inl TypeError"
    "kasiskiExamination_combined ''valueOfabcdefghivalueOf'' = Inl TypeError"
    by code_simp+
  from a b c d e show ?thesis by (intro conjI)
qed

text \<open>
  When \<open>recurrenceSearch\<close> records no gap, both variants read \<open>.factor\<close> of the first
  element of an empty array and raise a \<open>TypeError\<close>.
\<close>

lemma recurrenceSearch_empty_kasiski:
  assumes "recurrenceSearch ct = Inr (st, [])"
  shows "kasiskiExamination ct = Inl TypeError \<and> kasiskiExamination_combined ct = Inl TypeError"
proof -
  have r: "rankedFactors [] = []" by (simp add: rankedFactors_def recordedFactors_def)
  have "firstKeyLengthLoop [] 0 = Inl TypeError"
    by (subst firstKeyLengthLoop.simps) (simp add: factorAt_def del: firstKeyLengthLoop.simps)
  then show ?thesis
    by (simp add: kasiski_ranks[OF assms] kasiski_combined_ranks[OF assms] r factorAt_def
        del: firstKeyLengthLoop.simps)
qed

text \<open>
  C4: on a ciphertext without a repeated substring \<open>kasiskiExamination\<close> is to return an
  explicit no-candidates result. On \<open>ABCDEF\<close> \<open>recurrenceSearch\<close> returns with no gap
  recorded, and both variants raise a \<open>TypeError\<close> instead.
\<close>

theorem no_gaps_type_error:
  "recurrenceSearch ''ABCDEF'' = Inr ([], []) \<and>
   kasiskiExamination ''ABCDEF'' = Inl TypeError \<and>
   kasiskiExamination_combined ''ABCDEF'' = Inl TypeError"
  by code_simp

section \<open>Properties of the frequency columns\<close>

lemma jadd_NaN_right: "jadd x NaN = NaN"
  by (cases x) simp_all

lemma distinct_letterFrequencies: "distinct (map fst letterFrequencies)"
  by (simp add: letterFrequencies_def)

lemma length_letterFrequencies: "length letterFrequencies = 26"
  by (simp add: letterFrequencies_def)

lemma getLetter_update:
  "getLetter (AList.update l p ls) l' = (if l' = l then p else getLetter ls l')"
  by (simp add: getLetter_def update_conv')

lemma scoreStep_zero:
  assumes "getLetter ls l = Fin 0"
  shows "scoreStep 0 (l, F) (ls, sc) = (AList.update l NaN ls, NaN)"
  using assms by (simp add: scoreStep_def Let_def jsub_def jadd_NaN_right)

lemma fold_scoreStep_zero:
  assumes "\<forall>l\<in>set (map fst lfs). getLetter ls l = Fin 0"
    and "distinct (map fst lfs)" and "lfs \<noteq> []"
  shows "snd (fold (scoreStep 0) lfs (ls, sc)) = NaN"
  using assms
proof (induction lfs arbitrary: ls sc)
  case Nil
  then show ?case by simp
next
  case (Cons lF lfs)
  obtain l F where lF: "lF = (l, F)" by (cases lF)
  have step: "scoreStep 0 lF (ls, sc) = (AList.update l NaN ls, NaN)"
    unfolding lF using Cons.prems(1) by (intro scoreStep_zero) (simp add: lF)
  show ?case
  proof (cases "lfs = []")
    case True
    then show ?thesis by (simp add: step)
  next
    case False
    have "\<forall>l'\<in>set (map fst lfs). getLetter (AList.update l NaN ls) l' = Fin 0"
      using Cons.prems(1,2) by (auto simp: getLetter_update lF)
    moreover have "distinct (map fst lfs)" using Cons.prems(2) by simp
    ultimately have "snd (fold (scoreStep 0) lfs (AList.update l NaN ls, NaN)) = NaN"
      using False by (rule Cons.IH)
    then show ?thesis by (simp add: step)
  qed
qed

lemma getLetter_init:
  "l \<in> set (map fst lfs) \<Longrightarrow> getLetter (map (\<lambda>(l, F). (l, Fin 0)) lfs) l = Fin 0"
  by (induction lfs) (auto simp: getLetter_def)

lemma score_initColumn: "score (scoreColumn initColumn) = NaN"
proof -
  have "snd (fold (scoreStep 0) letterFrequencies (letters initColumn, Fin 0)) = NaN"
  proof (rule fold_scoreStep_zero)
    show "\<forall>l\<in>set (map fst letterFrequencies). getLetter (letters initColumn) l = Fin 0"
      by (simp add: initColumn_def getLetter_init del: set_map)
    show "distinct (map fst letterFrequencies)" by (rule distinct_letterFrequencies)
    show "letterFrequencies \<noteq> []" using length_letterFrequencies by auto
  qed
  then show ?thesis
    by (simp add: scoreColumn_def initColumn_def split_beta)
qed

lemma fold_scoreStep_zero_letters:
  assumes "\<forall>l\<in>set (map fst lfs). getLetter ls l = Fin 0" and "distinct (map fst lfs)"
  shows "fst (fold (scoreStep 0) lfs (ls, sc)) = fold (\<lambda>lF ls. AList.update (fst lF) NaN ls) lfs ls"
  using assms
proof (induction lfs arbitrary: ls sc)
  case Nil
  then show ?case by simp
next
  case (Cons lF lfs)
  obtain l F where lF: "lF = (l, F)" by (cases lF)
  have step: "scoreStep 0 lF (ls, sc) = (AList.update l NaN ls, NaN)"
    unfolding lF using Cons.prems(1) by (intro scoreStep_zero) (simp add: lF)
  have "\<forall>l'\<in>set (map fst lfs). getLetter (AList.update l NaN ls) l' = Fin 0"
    using Cons.prems(1,2) by (auto simp: getLetter_update lF)
  moreover have "distinct (map fst lfs)" using Cons.prems(2) by simp
  ultimately have "fst (fold (scoreStep 0) lfs (AList.update l NaN ls, NaN))
      = fold (\<lambda>lF ls. AList.update (fst lF) NaN ls) lfs (AList.update l NaN ls)"
    by (rule Cons.IH)
  moreover have "fst lF = l" by (simp add: lF)
  ultimately show ?case by (simp add: step)
qed

lemma all_letters_NaN:
  "fold (\<lambda>lF ls. AList.update (fst lF) NaN ls) letterFrequencies
     (map (\<lambda>(l, F). (l, Fin 0)) letterFrequencies)
   = map (\<lambda>(l, F). (l, NaN)) letterFrequencies"
  by (simp add: letterFrequencies_def)

lemma letters_initColumn:
  "letters (scoreColumn initColumn) = map (\<lambda>(l, F). (l, NaN)) letterFrequencies"
proof -
  have "fst (fold (scoreStep 0) letterFrequencies (letters initColumn, Fin 0))
          = fold (\<lambda>lF ls. AList.update (fst lF) NaN ls) letterFrequencies (letters initColumn)"
  proof (rule fold_scoreStep_zero_letters)
    show "\<forall>l\<in>set (map fst letterFrequencies). getLetter (letters initColumn) l = Fin 0"
      by (simp add: initColumn_def getLetter_init del: set_map)
    show "distinct (map fst letterFrequencies)" by (rule distinct_letterFrequencies)
  qed
  also have "\<dots> = map (\<lambda>(l, F). (l, NaN)) letterFrequencies"
    unfolding initColumn_def by (simp only: columnCount.simps all_letters_NaN)
  finally show ?thesis
    by (simp add: scoreColumn_def initColumn_def split_beta)
qed

lemma total_scoreColumn: "total (scoreColumn col) = total col"
  by (simp add: scoreColumn_def split_beta)

text \<open>
  The counting loop leaves a column alone when no position of that column holds an
  uppercase letter.
\<close>

lemma countStep_untouched:
  assumes "c < length cols" and "\<forall>i\<in>set is. i mod columns = c \<longrightarrow> \<not> isAZ (text ! i)"
  shows "length (fold (\<lambda>i cols.
             let column = i mod columns; l = text ! i
             in if \<not> isAZ l then cols else cols[column := bump (cols ! column) l]) is cols)
           = length cols
       \<and> fold (\<lambda>i cols.
             let column = i mod columns; l = text ! i
             in if \<not> isAZ l then cols else cols[column := bump (cols ! column) l]) is cols ! c
           = cols ! c"
  using assms
proof (induction "is" arbitrary: cols)
  case Nil
  then show ?case by simp
next
  case (Cons i "is")
  let ?step = "\<lambda>i cols. let column = i mod columns; l = text ! i
             in if \<not> isAZ l then cols else cols[column := bump (cols ! column) l]"
  have len: "length (?step i cols) = length cols" by (simp add: Let_def)
  have same: "?step i cols ! c = cols ! c"
    using Cons.prems(2) by (auto simp: Let_def)
  have "length (fold ?step is (?step i cols)) = length (?step i cols)
        \<and> fold ?step is (?step i cols) ! c = ?step i cols ! c"
    using Cons.prems by (intro Cons.IH) (simp_all only: len list.set_intros ball_simps, auto)
  then show ?case by (simp only: fold_simps len same)
qed

lemma countLoop_untouched:
  assumes "c < length cols"
    and "\<forall>i<length text. i mod columns = c \<longrightarrow> \<not> isAZ (text ! i)"
  shows "countLoop columns text cols ! c = cols ! c"
proof -
  have "\<forall>i\<in>set [0..<length text]. i mod columns = c \<longrightarrow> \<not> isAZ (text ! i)"
    using assms(2) by simp
  from countStep_untouched[OF assms(1) this] show ?thesis
    unfolding countLoop_def by (rule conjunct2)
qed

lemma length_frequencies: "length (frequencies v columns text) = orDefault columns 1"
  by (simp add: frequencies_def Let_def)

lemma frequencies_empty_column:
  assumes "c < orDefault columns 1"
    and "\<forall>i<length (orElse text (cryptotext v)).
           i mod orDefault columns 1 = c \<longrightarrow> \<not> isAZ (orElse text (cryptotext v) ! i)"
  shows "total (frequencies v columns text ! c) = 0 \<and>
         letters (frequencies v columns text ! c) = map (\<lambda>(l, F). (l, NaN)) letterFrequencies \<and>
         score (frequencies v columns text ! c) = NaN"
proof -
  let ?n = "orDefault columns 1" and ?t = "orElse text (cryptotext v)"
  have "countLoop ?n ?t (replicate ?n initColumn) ! c = replicate ?n initColumn ! c"
    using assms by (intro countLoop_untouched) simp_all
  then have "countLoop ?n ?t (replicate ?n initColumn) ! c = initColumn"
    using assms(1) by simp
  then have "frequencies v columns text ! c = scoreColumn initColumn"
    using assms(1) by (simp add: frequencies_def Let_def)
  moreover have "total initColumn = 0" by (simp add: initColumn_def)
  ultimately show ?thesis
    by (simp only: score_initColumn total_scoreColumn letters_initColumn simp_thms)
qed


lemma length_insertBy: "length (insertBy cmp x ys) = Suc (length ys)"
  by (induction ys) simp_all

lemma length_sortBy: "length (sortBy cmp xs) = length xs"
  by (induction xs) (simp_all add: sortBy_def length_insertBy)

lemma last_letterFrequencies: "fst (last letterFrequencies) = CHR ''Z''"
  by (simp add: letterFrequencies_def)

lemma shiftStep_eq:
  "shiftStep len (l, F) (v, table) =
     (v\<lparr>plaintext := Some (decryptLoop (cryptotext v) [l])\<rparr>,
      map (\<lambda>column. table ! column @
             [\<lparr>letter = [l],
               chi = score (frequencies (v\<lparr>plaintext := Some (decryptLoop (cryptotext v) [l])\<rparr>)
                              (Some len) (Some (decryptLoop (cryptotext v) [l])) ! column)\<rparr>])
          [0..<len])"
  by (simp add: shiftStep_def decrypt_def orElse_def Let_def)

lemma fold_shiftStep:
  assumes "length table = len" and "\<forall>c<len. length (table ! c) = k"
  shows "length (snd (fold (shiftStep len) lfs (v, table))) = len \<and>
         (\<forall>c<len. length (snd (fold (shiftStep len) lfs (v, table)) ! c) = k + length lfs) \<and>
         cryptotext (fst (fold (shiftStep len) lfs (v, table))) = cryptotext v \<and>
         key (fst (fold (shiftStep len) lfs (v, table))) = key v \<and>
         ciphertext (fst (fold (shiftStep len) lfs (v, table))) = ciphertext v \<and>
         plaintext (fst (fold (shiftStep len) lfs (v, table))) =
           (if lfs = [] then plaintext v
            else Some (decryptLoop (cryptotext v) [fst (last lfs)]))"
  using assms
proof (induction lfs arbitrary: v table k)
  case Nil
  then show ?case by simp
next
  case (Cons lF lfs)
  obtain l F where lF: "lF = (l, F)" by (cases lF)
  let ?v = "v\<lparr>plaintext := Some (decryptLoop (cryptotext v) [l])\<rparr>"
  let ?t = "map (\<lambda>column. table ! column @
             [\<lparr>letter = [l],
               chi = score (frequencies ?v (Some len) (Some (decryptLoop (cryptotext v) [l]))
                              ! column)\<rparr>])
          [0..<len]"
  have step: "shiftStep len lF (v, table) = (?v, ?t)" unfolding lF by (rule shiftStep_eq)
  have t1: "length ?t = len" by simp
  have t2: "\<forall>c<len. length (?t ! c) = Suc k" using Cons.prems(2) by simp
  note IH = Cons.IH[OF t1 t2, of ?v]
  show ?case
    unfolding fold_simps step using IH by (cases "lfs = []") (simp_all add: lF)
qed

lemma sortColumns_props:
  assumes "sortColumns table cs fk = Inr (table', fk')"
    and "distinct cs" and "\<forall>c\<in>set cs. c < length table"
  shows "length table' = length table \<and>
         (\<forall>c<length table. table' ! c =
            (if c \<in> set cs then sortBy compareScores (table ! c) else table ! c)) \<and>
         fk' = fk @ concat (map (\<lambda>c. letter (hd (sortBy compareScores (table ! c)))) cs)"
  using assms
proof (induction cs arbitrary: table fk)
  case Nil
  then show ?case by simp
next
  case (Cons column cs)
  let ?t = "table[column := sortBy compareScores (table ! column)]"
  have col: "column < length table" using Cons.prems(3) by simp
  then have tc: "?t ! column = sortBy compareScores (table ! column)" by simp
  from Cons.prems(1) obtain c0 rest where
    s: "sortBy compareScores (table ! column) = c0 # rest"
    and rec: "sortColumns ?t cs (fk @ letter c0) = Inr (table', fk')"
    by (auto simp: Let_def tc split: list.splits)
  have d: "distinct cs" and notin: "column \<notin> set cs" using Cons.prems(2) by simp_all
  have b: "\<forall>c\<in>set cs. c < length ?t" using Cons.prems(3) by simp
  note IH = Cons.IH[OF rec d b]
  have other: "?t ! c = table ! c" if "c \<in> set cs" for c
  proof -
    from that notin have "column \<noteq> c" by blast
    then show ?thesis by simp
  qed
  have meq: "map (\<lambda>c. letter (hd (sortBy compareScores (?t ! c)))) cs
          = map (\<lambda>c. letter (hd (sortBy compareScores (table ! c)))) cs"
    by (rule map_cong) (simp_all add: other)
  have fk0: "fk' = (fk @ letter c0)
                   @ concat (map (\<lambda>c. letter (hd (sortBy compareScores (?t ! c)))) cs)"
    using IH by (rule conjunct2[THEN conjunct2])
  have fk: "fk' = (fk @ letter c0)
                   @ concat (map (\<lambda>c. letter (hd (sortBy compareScores (table ! c)))) cs)"
    using fk0 by (simp only: meq)
  have nth: "table' ! c = (if c \<in> set (column # cs) then sortBy compareScores (table ! c)
                           else table ! c)" if "c < length table" for c
  proof (cases "c = column")
    case True
    then show ?thesis using IH that notin tc by simp
  next
    case False
    then show ?thesis using IH that by (simp add: nth_list_update)
  qed
  show ?case using IH fk nth s by simp
qed

lemma sortColumns_total:
  assumes "distinct cs" and "\<forall>c\<in>set cs. c < length table \<and> table ! c \<noteq> []"
  shows "\<exists>table' fk'. sortColumns table cs fk = Inr (table', fk')"
  using assms
proof (induction cs arbitrary: table fk)
  case Nil
  then show ?case by simp
next
  case (Cons column cs)
  let ?t = "table[column := sortBy compareScores (table ! column)]"
  have col: "column < length table" "table ! column \<noteq> []" using Cons.prems(2) by simp_all
  then have tc: "?t ! column = sortBy compareScores (table ! column)" by simp
  have "length (sortBy compareScores (table ! column)) \<noteq> 0"
    using col(2) by (simp add: length_sortBy)
  then obtain c0 rest where s: "sortBy compareScores (table ! column) = c0 # rest"
    by (cases "sortBy compareScores (table ! column)") auto
  have d: "distinct cs" and notin: "column \<notin> set cs" using Cons.prems(1) by simp_all
  have "\<forall>c\<in>set cs. c < length ?t \<and> ?t ! c \<noteq> []"
    using Cons.prems(2) notin by (auto simp: nth_list_update)
  from Cons.IH[OF d this, of "fk @ letter c0"] show ?case
    using col(1) by (simp add: Let_def s)
qed

lemma assembleLoop_eq:
  assumes "\<forall>c\<in>set cs. c < length combination \<and> combination ! c < length (table ! c)"
  shows "assembleLoop table combination cs newKey
           = Inr (newKey @ concat (map (\<lambda>c. letter (table ! c ! (combination ! c))) cs))"
  using assms by (induction cs arbitrary: newKey) simp_all


text \<open>
  C5, as amended: when a column of \<open>frequencies\<close> holds no letter (no character that
  the test \<open>/^[A-Z]$/\<close> accepts), its \<open>total\<close> is 0, each of its 26 proportions is
  \<open>0 / 0\<close>, that is \<open>NaN\<close>, and its score is the \<open>NaN\<close> that this propagates; no other
  marker is set.
\<close>

theorem empty_column_scores_NaN:
  assumes "c < orDefault columns 1"
    and "\<forall>i<length (orElse text (cryptotext v)).
           i mod orDefault columns 1 = c \<longrightarrow> \<not> isAZ (orElse text (cryptotext v) ! i)"
  shows "total (frequencies v columns text ! c) = 0 \<and>
         letters (frequencies v columns text ! c) = map (\<lambda>(l, F). (l, NaN)) letterFrequencies \<and>
         score (frequencies v columns text ! c) = NaN"
  using assms by (rule frequencies_empty_column)

text \<open>
  In two columns the text \<open>A1B2\<close> has the letters in column 0 and the digits, at the
  positions 1 and 3, in column 1.
\<close>

theorem empty_column_scores_NaN_witness:
  "total (frequencies (Vigenere_new None None) (Some 2) (Some ''A1B2'') ! 1) = 0 \<and>
   letters (frequencies (Vigenere_new None None) (Some 2) (Some ''A1B2'') ! 1)
     = map (\<lambda>(l, F). (l, NaN)) letterFrequencies \<and>
   score (frequencies (Vigenere_new None None) (Some 2) (Some ''A1B2'') ! 1) = NaN"
proof -
  have h1: "1 < orDefault (Some 2) 1" by (simp add: orDefault_def)
  have "\<not> isAZ (''A1B2'' ! i)" if "i < 4" "i mod 2 = 1" for i
  proof -
    from that have "i = 1 \<or> i = 3" by presburger
    then show ?thesis by (auto simp: isAZ_def charCode_def)
  qed
  then have h2: "\<forall>i<length (orElse (Some ''A1B2'') (cryptotext (Vigenere_new None None))).
           i mod orDefault (Some 2) 1 = 1 \<longrightarrow>
           \<not> isAZ (orElse (Some ''A1B2'') (cryptotext (Vigenere_new None None)) ! i)"
    by (simp add: orElse_def orDefault_def)
  show ?thesis using empty_column_scores_NaN[OF h1 h2] .
qed

text \<open>
  For the text \<open>1 2\<close> in one column the score is \<open>NaN\<close>, not positive infinity or
  another explicit marker.
\<close>

theorem empty_column_counterexample:
  "score (frequencies (Vigenere_new None None) (Some 1) (Some ''1 2'') ! 0) = NaN \<and>
   score (frequencies (Vigenere_new None None) (Some 1) (Some ''1 2'') ! 0) \<noteq> PInf"
proof -
  have h1: "0 < orDefault (Some 1) 1" by (simp add: orDefault_def)
  have "\<not> isAZ (''1 2'' ! i)" if "i < 3" for i
  proof -
    from that have "i = 0 \<or> i = 1 \<or> i = 2" by arith
    then show ?thesis by (auto simp: isAZ_def charCode_def)
  qed
  then have h2: "\<forall>i<length (orElse (Some ''1 2'') (cryptotext (Vigenere_new None None))).
           i mod orDefault (Some 1) 1 = 0 \<longrightarrow>
           \<not> isAZ (orElse (Some ''1 2'') (cryptotext (Vigenere_new None None)) ! i)"
    by (simp add: orElse_def)
  from frequencies_empty_column[OF h1 h2] show ?thesis by simp
qed

section \<open>Properties of key recovery\<close>

lemma chooseLength_explicit: "0 < L \<Longrightarrow> chooseLength kas v (Some L) = Inr L"
  by (cases kas) (simp_all add: chooseLength_def orDefault_def)

lemma shifted_table:
  "length (snd (fold (shiftStep L) letterFrequencies (v, replicate L []))) = L \<and>
   (\<forall>c<L. length (snd (fold (shiftStep L) letterFrequencies (v, replicate L [])) ! c) = 26) \<and>
   cryptotext (fst (fold (shiftStep L) letterFrequencies (v, replicate L []))) = cryptotext v \<and>
   key (fst (fold (shiftStep L) letterFrequencies (v, replicate L []))) = key v \<and>
   ciphertext (fst (fold (shiftStep L) letterFrequencies (v, replicate L []))) = ciphertext v \<and>
   plaintext (fst (fold (shiftStep L) letterFrequencies (v, replicate L [])))
     = Some (decryptLoop (cryptotext v) ''Z'')"
proof -
  have ne: "letterFrequencies \<noteq> []" using length_letterFrequencies by auto
  have "length (replicate L ([]::keyCandidate list)) = L" by simp
  moreover have "\<forall>c<L. length (replicate L ([]::keyCandidate list) ! c) = 0" by simp
  ultimately show ?thesis
    using fold_shiftStep[of "replicate L []" L 0 letterFrequencies v] ne
    by (simp add: length_letterFrequencies last_letterFrequencies)
qed

lemma smashKey_unfold:
  "smashKey kas v len options =
     (case chooseLength kas v len of
        Inl e \<Rightarrow> Inl e
      | Inr L \<Rightarrow>
          (case sortColumns (snd (fold (shiftStep L) letterFrequencies (v, replicate L [])))
                  [0..<L] [] of
             Inl e \<Rightarrow> Inl e
           | Inr (table', fk) \<Rightarrow>
               Inr (\<lparr>candidateTable = table', firstKey = fk\<rparr>,
                    fst (fold (shiftStep L) letterFrequencies (v, replicate L [])))))"
  unfolding smashKey_def Let_def split_beta by (rule refl)

text \<open>
  What every result of \<open>smashKey\<close> satisfies: one column per position of the key, 26
  candidates in every column whatever \<open>options\<close> is, \<open>firstKey\<close> made of the first
  letters of the columns, and an engine that differs from the one before the call in
  \<open>plaintext\<close> only, which holds the decryption under the last letter tried.
\<close>

lemma smashKey_result:
  assumes "smashKey kas v len options = Inr (r, v')"
  shows "\<exists>L. chooseLength kas v len = Inr L \<and> length (candidateTable r) = L \<and>
           (\<forall>c<L. length (candidateTable r ! c) = 26) \<and>
           firstKey r = concat (map (\<lambda>c. letter (hd (candidateTable r ! c))) [0..<L]) \<and>
           cryptotext v' = cryptotext v \<and> key v' = key v \<and> ciphertext v' = ciphertext v \<and>
           plaintext v' = Some (decryptLoop (cryptotext v) ''Z'')"
proof -
  from assms obtain L where L: "chooseLength kas v len = Inr L"
    by (cases "chooseLength kas v len") (simp_all add: smashKey_unfold)
  let ?F = "fold (shiftStep L) letterFrequencies (v, replicate L [])"
  note F = shifted_table[of L v]
  from assms L obtain table' fk where
    sc: "sortColumns (snd ?F) [0..<L] [] = Inr (table', fk)"
    and r: "r = \<lparr>candidateTable = table', firstKey = fk\<rparr>" and v': "v' = fst ?F"
    by (cases "sortColumns (snd ?F) [0..<L] []") (auto simp: smashKey_unfold)
  have "\<forall>c\<in>set [0..<L]. c < length (snd ?F)" using F by simp
  from sortColumns_props[OF sc _ this]
  have len: "length table' = L"
    and nth: "\<forall>c<L. table' ! c = sortBy compareScores (snd ?F ! c)"
    and fk: "fk = concat (map (\<lambda>c. letter (hd (sortBy compareScores (snd ?F ! c)))) [0..<L])"
    using F by simp_all
  have "map (\<lambda>c. letter (hd (sortBy compareScores (snd ?F ! c)))) [0..<L]
          = map (\<lambda>c. letter (hd (table' ! c))) [0..<L]"
    by (rule map_cong) (simp_all add: nth)
  then have fk': "fk = concat (map (\<lambda>c. letter (hd (table' ! c))) [0..<L])"
    using fk by (simp only:)
  have l26: "\<forall>c<L. length (table' ! c) = 26" using nth F by (simp add: length_sortBy)
  show ?thesis
    using L len l26 fk' F by (intro exI[of _ L]) (simp add: r v')
qed

lemma smashKey_total:
  assumes "chooseLength kas v len = Inr L"
  shows "\<exists>r v'. smashKey kas v len options = Inr (r, v')"
proof -
  let ?F = "fold (shiftStep L) letterFrequencies (v, replicate L [])"
  note F = shifted_table[of L v]
  have "\<forall>c\<in>set [0..<L]. c < length (snd ?F) \<and> snd ?F ! c \<noteq> []"
  proof
    fix c assume "c \<in> set [0..<L]"
    then have c: "c < L" by simp
    with F have "length (snd ?F ! c) = 26" by blast
    then have "snd ?F ! c \<noteq> []" by auto
    with c F show "c < length (snd ?F) \<and> snd ?F ! c \<noteq> []" by simp
  qed
  from sortColumns_total[OF _ this, of "[]"] obtain table' fk where
    "sortColumns (snd ?F) [0..<L] [] = Inr (table', fk)" by auto
  then show ?thesis using assms by (simp add: smashKey_unfold)
qed

lemma assemble_all_zero:
  assumes "smashKey kas v len options = Inr (r, v')"
  shows "assemble r (replicate (length (candidateTable r)) 0) = Inr (firstKey r)"
proof -
  from smashKey_result[OF assms] obtain L where
    len: "length (candidateTable r) = L"
    and l26: "\<forall>c<L. length (candidateTable r ! c) = 26"
    and fk: "firstKey r = concat (map (\<lambda>c. letter (hd (candidateTable r ! c))) [0..<L])"
    by blast
  have pre: "\<forall>c\<in>set [0..<L]. c < length (replicate L (0::nat)) \<and>
               replicate L (0::nat) ! c < length (candidateTable r ! c)"
    using l26 by simp
  have meq: "map (\<lambda>c. letter (candidateTable r ! c ! (replicate L (0::nat) ! c))) [0..<L]
          = map (\<lambda>c. letter (hd (candidateTable r ! c))) [0..<L]"
  proof (rule map_cong)
    fix c assume "c \<in> set [0..<L]"
    then have c: "c < L" by simp
    with l26 have "candidateTable r ! c \<noteq> []" by auto
    then show "letter (candidateTable r ! c ! (replicate L (0::nat) ! c))
                 = letter (hd (candidateTable r ! c))"
      using c by (simp add: hd_conv_nth)
  qed simp
  show ?thesis
    unfolding assemble_def len assembleLoop_eq[OF pre] fk meq by (simp only: append_Nil)
qed

text \<open>
  C8: for every result of \<open>smashKey\<close>, \<open>assemble\<close> called with the all-zero combination,
  one zero per column, returns \<open>firstKey\<close>; and for every key length \<open>L \<ge> 1\<close> given
  explicitly \<open>smashKey\<close> returns such a result, with \<open>L\<close> columns.
\<close>

theorem assemble_zero_is_firstKey:
  "(smashKey kas v len options = Inr (r, v') \<longrightarrow>
      assemble r (replicate (length (candidateTable r)) 0) = Inr (firstKey r)) \<and>
   (0 < L \<longrightarrow>
      (\<exists>r v'. smashKey kas v (Some L) options = Inr (r, v') \<and> length (candidateTable r) = L \<and>
         assemble r (replicate L 0) = Inr (firstKey r)))"
proof (intro conjI impI)
  assume "smashKey kas v len options = Inr (r, v')"
  then show "assemble r (replicate (length (candidateTable r)) 0) = Inr (firstKey r)"
    by (rule assemble_all_zero)
next
  assume L: "0 < L"
  then have cl: "chooseLength kas v (Some L) = Inr L" by (rule chooseLength_explicit)
  from smashKey_total[OF cl] obtain r v' where
    s: "smashKey kas v (Some L) options = Inr (r, v')" by blast
  from smashKey_result[OF s] cl have "length (candidateTable r) = L" by auto
  with s assemble_all_zero[OF s]
  show "\<exists>r v'. smashKey kas v (Some L) options = Inr (r, v') \<and> length (candidateTable r) = L \<and>
         assemble r (replicate L 0) = Inr (firstKey r)"
    by auto
qed

theorem assemble_zero_is_firstKey_witness:
  "(0::nat) < 2 \<and>
   (\<exists>r v'. smashKey (Some kasiskiExamination) (Vigenere_new (Some ''HELLO'') None) (Some 2) None
              = Inr (r, v') \<and>
      length (candidateTable r) = 2 \<and>
      assemble r (replicate (length (candidateTable r)) 0) = Inr (firstKey r) \<and>
      assemble r (replicate 2 0) = Inr (firstKey r))"
proof -
  have h: "(0::nat) < 2" by simp
  from assemble_zero_is_firstKey[of "Some kasiskiExamination" "Vigenere_new (Some ''HELLO'') None"
      "Some 2" None _ _ 2, THEN conjunct2, rule_format, OF h]
  obtain r v' where
    s: "smashKey (Some kasiskiExamination) (Vigenere_new (Some ''HELLO'') None) (Some 2) None
          = Inr (r, v')"
    and l: "length (candidateTable r) = 2"
    and a: "assemble r (replicate 2 0) = Inr (firstKey r)"
    by blast
  from assemble_zero_is_firstKey[of "Some kasiskiExamination"
      "Vigenere_new (Some ''HELLO'') None" "Some 2" None r v' 2, THEN conjunct1, rule_format, OF s]
  have "assemble r (replicate (length (candidateTable r)) 0) = Inr (firstKey r)" .
  with h s l a show ?thesis by blast
qed

text \<open>
  C9, as amended: \<open>smashKey\<close> leaves the working text, the key and the stored ciphertext
  of the engine as they were, and overwrites the stored plaintext with the decryption of
  the working text under \<open>Z\<close>, the last of the 26 calls of \<open>decrypt\<close> it makes.
\<close>

theorem smashKey_frame:
  assumes "smashKey kas v len options = Inr (r, v')"
  shows "cryptotext v' = cryptotext v \<and> key v' = key v \<and> ciphertext v' = ciphertext v \<and>
         plaintext v' = Some (fst (decrypt v (Some ''Z'')))"
proof -
  have "fst (decrypt v (Some ''Z'')) = decryptLoop (cryptotext v) ''Z''"
    by (simp add: decrypt_def orElse_def Let_def)
  with smashKey_result[OF assms] show ?thesis by auto
qed

lemma smashKey_example:
  "\<exists>r v'. smashKey (Some kasiskiExamination) (Vigenere_new (Some ''B'') (Some ''A'')) (Some 1)
             options = Inr (r, v')"
  by (rule smashKey_total) (simp add: chooseLength_explicit)

lemma decrypt_B_Z: "fst (decrypt (Vigenere_new (Some ''B'') (Some ''A'')) (Some ''Z'')) = ''C''"
  by code_simp

theorem smashKey_frame_witness:
  "\<exists>r v'. smashKey (Some kasiskiExamination) (Vigenere_new (Some ''B'') (Some ''A'')) (Some 1)
             None = Inr (r, v') \<and>
      cryptotext v' = cryptotext (Vigenere_new (Some ''B'') (Some ''A'')) \<and>
      key v' = key (Vigenere_new (Some ''B'') (Some ''A'')) \<and>
      ciphertext v' = ciphertext (Vigenere_new (Some ''B'') (Some ''A'')) \<and>
      plaintext v' = Some ''C''"
proof -
  from smashKey_example[of None] obtain r v' where
    s: "smashKey (Some kasiskiExamination) (Vigenere_new (Some ''B'') (Some ''A'')) (Some 1)
          None = Inr (r, v')" by blast
  from smashKey_frame[OF s] s show ?thesis by (auto simp only: decrypt_B_Z)
qed

text \<open>
  For an engine constructed from the text \<open>B\<close>, the stored plaintext is \<open>B\<close> before
  \<open>smashKey\<close> and \<open>C\<close> after it.
\<close>

theorem smashKey_plaintext_counterexample:
  "\<not> isl (smashKey (Some kasiskiExamination) (Vigenere_new (Some ''B'') (Some ''A'')) (Some 1)
            None) \<and>
   plaintext (Vigenere_new (Some ''B'') (Some ''A'')) = Some ''B'' \<and>
   plaintext (snd (projr (smashKey (Some kasiskiExamination)
                            (Vigenere_new (Some ''B'') (Some ''A'')) (Some 1) None)))
     = Some ''C''"
proof -
  from smashKey_example[of None] obtain r v' where
    s: "smashKey (Some kasiskiExamination) (Vigenere_new (Some ''B'') (Some ''A'')) (Some 1)
          None = Inr (r, v')" by blast
  from smashKey_result[OF s]
  have "plaintext v' = Some (decryptLoop (cryptotext (Vigenere_new (Some ''B'') (Some ''A''))) ''Z'')"
    by blast
  moreover have "decryptLoop (cryptotext (Vigenere_new (Some ''B'') (Some ''A''))) ''Z'' = ''C''"
    by code_simp
  moreover have "plaintext (Vigenere_new (Some ''B'') (Some ''A'')) = Some ''B''"
    by (simp add: Vigenere_new_def)
  ultimately show ?thesis unfolding s by simp
qed

text \<open>
  C3: each column of the candidate table is to hold \<open>min(n, 26)\<close> entries. \<open>smashKey\<close>
  computes \<open>Math.min(options || 3, 26)\<close> and never uses it: with key length 1 and
  \<open>options = 3\<close> the one column of the result holds 26 entries.
\<close>

theorem options_not_applied:
  "\<not> isl (smashKey (Some kasiskiExamination) (Vigenere_new (Some ''HELLO'') None) (Some 1)
            (Some 3)) \<and>
   length (candidateTable (fst (projr (smashKey (Some kasiskiExamination)
             (Vigenere_new (Some ''HELLO'') None) (Some 1) (Some 3))))) = 1 \<and>
   length (candidateTable (fst (projr (smashKey (Some kasiskiExamination)
             (Vigenere_new (Some ''HELLO'') None) (Some 1) (Some 3)))) ! 0) = 26"
proof -
  have cl: "chooseLength (Some kasiskiExamination) (Vigenere_new (Some ''HELLO'') None) (Some 1)
              = Inr 1"
    by (simp add: chooseLength_explicit)
  from smashKey_total[OF cl] obtain r v' where
    s: "smashKey (Some kasiskiExamination) (Vigenere_new (Some ''HELLO'') None) (Some 1) (Some 3)
          = Inr (r, v')" by blast
  from smashKey_result[OF s] cl
  have "length (candidateTable r) = 1" "length (candidateTable r ! 0) = 26" by auto
  then show ?thesis unfolding s by simp
qed

end
